theory Spec2Isabelle
  imports Main "HOL-Library.AList" "HOL-Library.Char_ord" "HOL-Library.List_Lexorder"
begin

section \<open>The file system the program works on\<close>

text \<open>
  \<^verbatim>\<open>compare_and_replace.py\<close> reads and changes the file system through \<^verbatim>\<open>os\<close>,
  \<^verbatim>\<open>shutil\<close> and \<^verbatim>\<open>filecmp\<close>. The file system is a tree: a regular file with its bytes,
  a directory with its listing (in the order \<^verbatim>\<open>os.scandir\<close> yields it), a symbolic link
  together with what following it yields (\<open>None\<close> for a dangling link), or anything else
  (device, socket, fifo). The tree has no sharing: no hard links, and every link has a
  target of its own. Path strings are resolved from the root of the tree, which is also
  the working directory; the components \<^verbatim>\<open>''\<close> and \<^verbatim>\<open>.\<close> stay in a directory, and
  \<^verbatim>\<open>..\<close> is looked up like a name, so that it resolves nowhere.
\<close>

datatype node = Reg string | Dir "(string \<times> node) list" | Lnk "node option" | Special

datatype error = AssertionError | OSError | EOFError | KeyError | IndexError | SystemExit int

fun follow :: "node \<Rightarrow> node option" where
  "follow (Lnk None) = None"
| "follow (Lnk (Some t)) = follow t"
| "follow n = Some n"

fun split_on :: "char \<Rightarrow> string \<Rightarrow> string list" where
  "split_on sep [] = [[]]"
| "split_on sep (c # cs) =
     (if c = sep then [] # split_on sep cs
      else (c # hd (split_on sep cs)) # tl (split_on sep cs))"

definition components :: "string \<Rightarrow> string list" where
  "components p = split_on (CHR ''/'') p"

definition stays :: "string \<Rightarrow> bool" where
  "stays c \<longleftrightarrow> c = [] \<or> c = ''.''"

text \<open>
  \<open>walk\<close> resolves the components of a path without following a link in the last
  position (\<^verbatim>\<open>lstat\<close>); a link in the middle of a path is followed.
\<close>

fun walk :: "node \<Rightarrow> string list \<Rightarrow> node option" where
  "walk n [] = Some n"
| "walk n (c # cs) =
     (case follow n of
        Some (Dir es) \<Rightarrow>
          if stays c then walk (Dir es) cs
          else (case map_of es c of None \<Rightarrow> None | Some m \<Rightarrow> walk m cs)
      | _ \<Rightarrow> None)"

definition os_lstat :: "node \<Rightarrow> string \<Rightarrow> node option" where
  "os_lstat root p = (if p = [] then None else walk root (components p))"

definition os_stat :: "node \<Rightarrow> string \<Rightarrow> node option" where
  "os_stat root p = (case os_lstat root p of None \<Rightarrow> None | Some n \<Rightarrow> follow n)"

definition os_path_exists :: "node \<Rightarrow> string \<Rightarrow> bool" where
  "os_path_exists root p \<longleftrightarrow> os_stat root p \<noteq> None"

definition os_path_isdir :: "node \<Rightarrow> string \<Rightarrow> bool" where
  "os_path_isdir root p \<longleftrightarrow> (case os_stat root p of Some (Dir es) \<Rightarrow> True | _ \<Rightarrow> False)"

text \<open>
  \<open>put cs v n\<close> sets the entry that the components \<open>cs\<close> name to \<open>v\<close> (\<open>None\<close> removes
  it) and rebuilds the tree. It fails where the parent directory does not resolve and
  where the last component is not a name.
\<close>

fun set_entry :: "string \<Rightarrow> node option \<Rightarrow> (string \<times> node) list \<Rightarrow> (string \<times> node) list" where
  "set_entry k None es = AList.delete k es"
| "set_entry k (Some v) es = AList.update k v es"

fun put :: "string list \<Rightarrow> node option \<Rightarrow> node \<Rightarrow> node option" where
  "put [] v n = None"
| "put (c # cs) v (Dir es) =
     (if stays c then put cs v (Dir es)
      else if cs = [] then Some (Dir (set_entry c v es))
      else (case map_of es c of
              None \<Rightarrow> None
            | Some m \<Rightarrow> (case put cs v m of
                          None \<Rightarrow> None
                        | Some m' \<Rightarrow> Some (Dir (AList.update c m' es)))))"
| "put (c # cs) v (Lnk (Some t)) =
     (case put (c # cs) v t of None \<Rightarrow> None | Some t' \<Rightarrow> Some (Lnk (Some t')))"
| "put (c # cs) v n = None"

definition is_directory :: "node \<Rightarrow> bool" where
  "is_directory n = (case n of Dir es \<Rightarrow> True | _ \<Rightarrow> False)"

definition is_regular :: "node \<Rightarrow> bool" where
  "is_regular n = (case n of Reg b \<Rightarrow> True | _ \<Rightarrow> False)"

definition is_link :: "node \<Rightarrow> bool" where
  "is_link n = (case n of Lnk t \<Rightarrow> True | _ \<Rightarrow> False)"

definition unlink :: "node \<Rightarrow> string \<Rightarrow> error + node" where
  "unlink root p =
     (if p = [] then Inl OSError
      else (case put (components p) None root of None \<Rightarrow> Inl OSError | Some r \<Rightarrow> Inr r))"

definition os_remove :: "node \<Rightarrow> string \<Rightarrow> error + node" where
  "os_remove root p =
     (case os_lstat root p of
        None \<Rightarrow> Inl OSError
      | Some n \<Rightarrow> if is_directory n then Inl OSError else unlink root p)"

definition shutil_rmtree :: "node \<Rightarrow> string \<Rightarrow> error + node" where
  "shutil_rmtree root p =
     (case os_lstat root p of
        None \<Rightarrow> Inl OSError
      | Some n \<Rightarrow> if is_directory n then unlink root p else Inl OSError)"

text \<open>
  \<^verbatim>\<open>os.rename\<close>: a directory replaces an empty directory only, anything else replaces
  anything but a directory; the object moves with all that is below it.
\<close>

definition os_rename :: "node \<Rightarrow> string \<Rightarrow> string \<Rightarrow> error + node" where
  "os_rename root src dst =
     (case os_lstat root src of
        None \<Rightarrow> Inl OSError
      | Some x \<Rightarrow>
          if (case os_lstat root dst of
                None \<Rightarrow> True
              | Some (Dir es) \<Rightarrow> is_directory x \<and> es = []
              | Some y \<Rightarrow> \<not> is_directory x)
          then (case unlink root src of
                  Inl e \<Rightarrow> Inl e
                | Inr r \<Rightarrow> (if dst = [] then Inl OSError
                            else (case put (components dst) (Some x) r of
                                    None \<Rightarrow> Inl OSError
                                  | Some r' \<Rightarrow> Inr r')))
          else Inl OSError)"

text \<open>
  \<^verbatim>\<open>filecmp.cmp(a, b, shallow=False)\<close> on what \<^verbatim>\<open>os.stat\<close> gives for the two paths:
  it raises where one of them does not exist, is \<open>False\<close> unless both are regular files,
  and compares the bytes otherwise.
\<close>

definition filecmp_cmp :: "node option \<Rightarrow> node option \<Rightarrow> error + bool" where
  "filecmp_cmp a b =
     (case (a, b) of
        (Some (Reg x), Some (Reg y)) \<Rightarrow> Inr (x = y)
      | (Some x, Some y) \<Rightarrow> Inr False
      | _ \<Rightarrow> Inl OSError)"

section \<open>The process: console, diff viewer, exceptions\<close>

text \<open>
  What the process does to the outside is one trace of events, in the order they happen:
  a line on standard output, a line on standard error, a prompt written by \<^verbatim>\<open>input\<close>,
  and a shell command run by \<^verbatim>\<open>os.system\<close>. Standard input is the list of lines still
  to be read; \<^verbatim>\<open>input\<close> raises \<^verbatim>\<open>EOFError\<close> when it is empty. The exit statuses that the
  diff viewer will return are given in advance (0 where the list has run out); the viewer
  is started read-only and changes nothing.
\<close>

datatype event = Stdout string | Stderr string | Prompt string | System string

record world =
  fs :: node
  stdin :: "string list"
  trace :: "event list"
  viewer_status :: "int list"

type_synonym 'a io = "world \<Rightarrow> (error + 'a) \<times> world"

definition then_do :: "'a io \<Rightarrow> ('a \<Rightarrow> 'b io) \<Rightarrow> 'b io" where
  "then_do m f w = (case m w of (Inl e, w') \<Rightarrow> (Inl e, w') | (Inr x, w') \<Rightarrow> f x w')"

definition fs_op :: "(node \<Rightarrow> error + node) \<Rightarrow> unit io" where
  "fs_op f w = (case f (fs w) of Inl e \<Rightarrow> (Inl e, w) | Inr r \<Rightarrow> (Inr (), w\<lparr>fs := r\<rparr>))"

definition print :: "string \<Rightarrow> world \<Rightarrow> world" where
  "print s w = w\<lparr>trace := trace w @ [Stdout s]\<rparr>"

definition stderr :: "string \<Rightarrow> world \<Rightarrow> world" where
  "stderr s w = w\<lparr>trace := trace w @ [Stderr s]\<rparr>"

definition apostrophe :: string where
  "apostrophe = [CHR 0x27]"

definition gdiff :: "string \<Rightarrow> string \<Rightarrow> world \<Rightarrow> world" where
  "gdiff L_path R_path w =
     (let retcode = (case viewer_status w of [] \<Rightarrow> 0 | r # rs \<Rightarrow> r);
          w1 = w\<lparr>trace := trace w @
                   [System (''gdiff -f -R -c '' @ apostrophe @ ''windo set nonu| syntax off''
                            @ apostrophe @ '' '' @ apostrophe @ L_path @ apostrophe
                            @ '' '' @ apostrophe @ R_path @ apostrophe)],
                 viewer_status := tl (viewer_status w)\<rparr>
      in if retcode \<noteq> 0 then stderr ''return code was {retcode}'' w1 else w1)"

function get_input :: "string \<Rightarrow> string list \<Rightarrow> string io" where
  "get_input prompt valid_responses w =
     (case stdin w of
        [] \<Rightarrow> (Inl EOFError, w\<lparr>trace := trace w @ [Prompt (prompt @ '' '')]\<rparr>)
      | response # rest \<Rightarrow>
          (let w1 = w\<lparr>stdin := rest, trace := trace w @ [Prompt (prompt @ '' '')]\<rparr>
           in if response \<in> set valid_responses then (Inr response, w1)
              else get_input prompt valid_responses
                     (stderr (''You responded '' @ apostrophe @ response @ apostrophe) w1)))"
  by pat_completeness auto
termination
  by (relation "measure (\<lambda>(prompt, valid_responses, w). length (stdin w))")
     (auto simp: stderr_def)

declare get_input.simps [simp del]

section \<open>Single files\<close>

definition get_type :: "node \<Rightarrow> string \<Rightarrow> error + string" where
  "get_type root p =
     (case os_lstat root p of
        None \<Rightarrow> Inl OSError
      | Some stat_result \<Rightarrow>
          if is_directory stat_result then Inr ''dir''
          else if is_regular stat_result then Inr ''reg''
          else Inr ''other'')"

definition remove_previous_backup :: "string \<Rightarrow> node \<Rightarrow> error + node" where
  "remove_previous_backup bak_path root =
     (if os_path_isdir root bak_path then shutil_rmtree root bak_path
      else if os_path_exists root bak_path then os_remove root bak_path
      else Inr root)"

definition handle_files :: "string \<Rightarrow> string \<Rightarrow> unit io" where
  "handle_files cur_path new_path w =
     (case filecmp_cmp (os_stat (fs w) cur_path) (os_stat (fs w) new_path) of
        Inl e \<Rightarrow> (Inl e, w)
      | Inr True \<Rightarrow>
          fs_op (\<lambda>r. os_remove r new_path) (stderr (''No change from '' @ cur_path) w)
      | Inr False \<Rightarrow>
          then_do (get_input (''update '' @ cur_path @ '' ?'') [''y'', ''b'', ''n'', ''q''])
            (\<lambda>response.
               if response = ''y'' then fs_op (\<lambda>r. os_rename r new_path cur_path)
               else if response = ''b'' then
                 (let bak_path = cur_path @ ''.bak''
                  in then_do (fs_op (remove_previous_backup bak_path))
                       (\<lambda>_. then_do (fs_op (\<lambda>r. os_rename r cur_path bak_path))
                       (\<lambda>_. fs_op (\<lambda>r. os_rename r new_path cur_path))))
               else if response = ''n'' then (\<lambda>w'. (Inr (), stderr ''(not overwriting)'' w'))
               else if response = ''q'' then (\<lambda>w'. (Inl (SystemExit 1), w'))
               else (\<lambda>w'. (Inl AssertionError, w')))
            (gdiff cur_path new_path w))"

section \<open>Directories\<close>

text \<open>
  A \<^verbatim>\<open>DirEntry\<close> of \<^verbatim>\<open>os.scandir\<close>: the name, the path, and the two answers the program
  asks of it, \<^verbatim>\<open>is_file(follow_symlinks=False)\<close> and \<^verbatim>\<open>is_dir()\<close> (which follows
  links).
\<close>

record dir_entry =
  entry_name :: string
  entry_path :: string
  is_file_nofollow :: bool
  is_dir :: bool

definition os_path_join :: "string \<Rightarrow> string \<Rightarrow> string" where
  "os_path_join a b =
     (if b \<noteq> [] \<and> hd b = CHR ''/'' then b
      else if a = [] \<or> last a = CHR ''/'' then a @ b
      else a @ ''/'' @ b)"

definition entry_of :: "string \<Rightarrow> string \<times> node \<Rightarrow> dir_entry" where
  "entry_of p e =
     \<lparr>entry_name = fst e, entry_path = os_path_join p (fst e),
      is_file_nofollow = is_regular (snd e),
      is_dir = (case follow (snd e) of Some (Dir es) \<Rightarrow> True | _ \<Rightarrow> False)\<rparr>"

definition scandir :: "node option \<Rightarrow> string \<Rightarrow> error + dir_entry list" where
  "scandir d p = (case d of Some (Dir es) \<Rightarrow> Inr (map (entry_of p) es) | _ \<Rightarrow> Inl OSError)"

definition os_scandir :: "node \<Rightarrow> string \<Rightarrow> error + dir_entry list" where
  "os_scandir root p = scandir (os_stat root p) p"

text \<open>
  \<open>child d nm\<close> is what \<^verbatim>\<open>os.stat\<close> gives for the path of directory \<open>d\<close> extended by
  \<^verbatim>\<open>/\<close> and the name \<open>nm\<close>.
\<close>

definition child :: "node option \<Rightarrow> string \<Rightarrow> node option" where
  "child d nm =
     (case d of
        Some (Dir es) \<Rightarrow> (case map_of es nm of None \<Rightarrow> None | Some x \<Rightarrow> follow x)
      | _ \<Rightarrow> None)"

text \<open>\<^verbatim>\<open>fnmatch.fnmatchcase\<close> for patterns made of \<^verbatim>\<open>*\<close>, \<^verbatim>\<open>?\<close> and literal characters.\<close>

fun fnmatchcase :: "string \<Rightarrow> string \<Rightarrow> bool" where
  "fnmatchcase [] [] = True"
| "fnmatchcase (c # cs) [] = False"
| "fnmatchcase nm (p # ps) =
     (if p = CHR ''*'' then
        (fnmatchcase nm ps \<or> (case nm of [] \<Rightarrow> False | c # cs \<Rightarrow> fnmatchcase cs (p # ps)))
      else (case nm of
              [] \<Rightarrow> False
            | c # cs \<Rightarrow> (p = CHR ''?'' \<or> p = c) \<and> fnmatchcase cs ps))"

declare fnmatchcase.simps [simp del]

type_synonym action = "string \<times> dir_entry list"

type_synonym pairing = "(string \<times> dir_entry option \<times> dir_entry option) list"

text \<open>\<^verbatim>\<open>d[entry.name][i] = entry\<close> on the \<^verbatim>\<open>defaultdict(lambda: [None, None])\<close>.\<close>

definition d_set :: "nat \<Rightarrow> dir_entry \<Rightarrow> pairing \<Rightarrow> pairing" where
  "d_set i entry d =
     (let slots = (case map_of d (entry_name entry) of None \<Rightarrow> (None, None) | Some v \<Rightarrow> v)
      in AList.update (entry_name entry)
           (if i = 0 then (Some entry, snd slots) else (fst slots, Some entry)) d)"

fun scan_entries :: "nat \<Rightarrow> string \<Rightarrow> dir_entry list \<Rightarrow> pairing \<times> world \<Rightarrow> pairing \<times> world" where
  "scan_entries i p [] (d, w) = (d, w)"
| "scan_entries i p (entry # entries) (d, w) =
     (if fnmatchcase (entry_name entry) ''.*.swp''
      then scan_entries i p entries (d, stderr (''ignoring: '' @ p @ ''/'' @ entry_name entry) w)
      else scan_entries i p entries (d_set i entry d, w))"

definition scan_roots :: "string \<Rightarrow> string \<Rightarrow> node option \<Rightarrow> node option \<Rightarrow> string \<Rightarrow> pairing io" where
  "scan_roots cur_root new_root c n dir_rel_path w =
     (case scandir c (cur_root @ ''/'' @ dir_rel_path) of
        Inl e \<Rightarrow> (Inl e, w)
      | Inr c_entries \<Rightarrow>
          (case scan_entries 0 (cur_root @ ''/'' @ dir_rel_path) c_entries ([], w) of
             (d0, w0) \<Rightarrow>
               (case scandir n (new_root @ ''/'' @ dir_rel_path) of
                  Inl e \<Rightarrow> (Inl e, w0)
                | Inr n_entries \<Rightarrow>
                    (case scan_entries 1 (new_root @ ''/'' @ dir_rel_path) n_entries (d0, w0) of
                       (d1, w1) \<Rightarrow> (Inr d1, w1)))))"

fun node_size :: "node option \<Rightarrow> nat" where
  "node_size None = 0"
| "node_size (Some x) = size x"

text \<open>
  The closure \<^verbatim>\<open>recurse_on_rel_path\<close> with its loop over the sorted items. The two
  directories it lists, \<^verbatim>\<open>cur_root/dir_rel_path\<close> and \<^verbatim>\<open>new_root/dir_rel_path\<close>, are passed
  as \<open>c\<close> and \<open>n\<close>; the dictionary \<^verbatim>\<open>action_for_item_\<close> is passed in and returned. A
  recursive call on a current side that does not resolve is the error that its first
  \<^verbatim>\<open>os.scandir\<close> raises.
\<close>

function recurse_on_rel_path ::
    "string \<Rightarrow> string \<Rightarrow> node option \<Rightarrow> node option \<Rightarrow> string \<Rightarrow> (string \<times> action) list
       \<Rightarrow> (string \<times> action) list io"
  and for_items ::
    "string \<Rightarrow> string \<Rightarrow> node option \<Rightarrow> node option \<Rightarrow> string \<Rightarrow> pairing
       \<Rightarrow> (string \<times> action) list \<Rightarrow> (string \<times> action) list io"
where
  "recurse_on_rel_path cur_root new_root c n dir_rel_path acts w =
     (case scan_roots cur_root new_root c n dir_rel_path w of
        (Inl e, w') \<Rightarrow> (Inl e, w')
      | (Inr d, w') \<Rightarrow> for_items cur_root new_root c n dir_rel_path (sort_key fst d) acts w')"
| "for_items cur_root new_root c n dir_rel_path [] acts w = (Inr acts, w)"
| "for_items cur_root new_root c n dir_rel_path ((item_name, None, None) # items) acts w =
     (Inl AssertionError, w)"
| "for_items cur_root new_root c n dir_rel_path ((item_name, Some ce, None) # items) acts w =
     for_items cur_root new_root c n dir_rel_path items
       (AList.update (dir_rel_path @ ''/'' @ item_name) (''delete'', [ce]) acts) w"
| "for_items cur_root new_root c n dir_rel_path ((item_name, None, Some ne) # items) acts w =
     for_items cur_root new_root c n dir_rel_path items
       (AList.update (dir_rel_path @ ''/'' @ item_name) (''create'', [ne]) acts) w"
| "for_items cur_root new_root c n dir_rel_path ((item_name, Some ce, Some ne) # items) acts w =
     (if is_file_nofollow ce \<and> is_file_nofollow ne then
        (case filecmp_cmp (child c item_name) (child n item_name) of
           Inl e \<Rightarrow> (Inl e, w)
         | Inr same \<Rightarrow>
             for_items cur_root new_root c n dir_rel_path items
               (AList.update (dir_rel_path @ ''/'' @ item_name)
                  (if same then (''leave'', [ce, ne]) else (''alter'', [ce, ne])) acts) w)
      else if is_dir ce \<and> is_dir ne then
        (case child c item_name of
           None \<Rightarrow> (Inl OSError, w)
         | Some cd \<Rightarrow>
             (case recurse_on_rel_path cur_root new_root (Some cd) (child n item_name)
                     (dir_rel_path @ ''/'' @ item_name) acts w of
                (Inl e, w') \<Rightarrow> (Inl e, w')
              | (Inr acts', w') \<Rightarrow>
                  for_items cur_root new_root c n dir_rel_path items acts' w'))
      else (Inl AssertionError, w))"
  by pat_completeness auto

lemma follow_size: "follow x = Some y \<Longrightarrow> size y \<le> size x"
  by (induction x rule: follow.induct) auto

lemma map_of_size: "map_of es k = Some x \<Longrightarrow> size x < size (Dir es)"
  by (induction es) (auto split: if_splits)

lemma child_size: "child c nm = Some cd \<Longrightarrow> size cd < node_size c"
  unfolding child_def
  by (auto split: option.splits node.splits dest!: follow_size map_of_size)

termination recurse_on_rel_path
  by (relation "measures
        [\<lambda>x. case x of Inl (cr, nr, c, n, rel, acts, w) \<Rightarrow> 2 * node_size c + 1
                     | Inr (cr, nr, c, n, rel, items, acts, w) \<Rightarrow> 2 * node_size c,
         \<lambda>x. case x of Inl (cr, nr, c, n, rel, acts, w) \<Rightarrow> 0
                     | Inr (cr, nr, c, n, rel, items, acts, w) \<Rightarrow> length items]")
     (auto dest!: child_size)

declare recurse_on_rel_path.simps [simp del]

text \<open>
  The dictionary \<^verbatim>\<open>would_\<close> keeps its four keys in the order they were written;
  \<^verbatim>\<open>would_[action[0]].append(item_rel_path)\<close> raises \<^verbatim>\<open>KeyError\<close> on any other verb.
\<close>

type_synonym groups = "(string \<times> string list) list"

definition would_empty :: groups where
  "would_empty = [(''delete'', []), (''create'', []), (''alter'', []), (''leave'', [])]"

definition would_append :: "string \<Rightarrow> string \<Rightarrow> groups \<Rightarrow> error + groups" where
  "would_append verb item_rel_path would =
     (case map_of would verb of
        None \<Rightarrow> Inl KeyError
      | Some item_rel_paths \<Rightarrow> Inr (AList.update verb (item_rel_paths @ [item_rel_path]) would))"

fun group_actions :: "(string \<times> action) list \<Rightarrow> groups \<Rightarrow> error + groups" where
  "group_actions [] would = Inr would"
| "group_actions ((item_rel_path, action) # rest) would =
     (case would_append (fst action) item_rel_path would of
        Inl e \<Rightarrow> Inl e
      | Inr would' \<Rightarrow> group_actions rest would')"

definition would_of :: "(string \<times> action) list \<Rightarrow> error + groups" where
  "would_of action_for_item = group_actions (sort_key fst action_for_item) would_empty"

definition would_at :: "groups \<Rightarrow> string \<Rightarrow> string list" where
  "would_at would verb = (case map_of would verb of None \<Rightarrow> [] | Some ps \<Rightarrow> ps)"

fun show_nat :: "nat \<Rightarrow> string" where
  "show_nat n =
     (if n < 10 then [char_of (48 + n)] else show_nat (n div 10) @ [char_of (48 + n mod 10)])"

declare show_nat.simps [simp del]

text \<open>\<^verbatim>\<open>item_path.replace("./", "")\<close>\<close>

fun replace_dot_slash :: "string \<Rightarrow> string" where
  "replace_dot_slash [] = []"
| "replace_dot_slash [c] = [c]"
| "replace_dot_slash (c # c' # cs) =
     (if c = CHR ''.'' \<and> c' = CHR ''/'' then replace_dot_slash cs
      else c # replace_dot_slash (c' # cs))"

definition report_group :: "string \<times> string list \<Rightarrow> world \<Rightarrow> world" where
  "report_group g w =
     (let verb = fst g; item_rel_paths = snd g;
          w1 = print (''    '' @ verb @ '':'') (print [] w)
      in if item_rel_paths = [] then print ''        (nothing)'' w1
         else if verb = ''leave'' \<and> length item_rel_paths > 10
           then print (''        ('' @ show_nat (length item_rel_paths) @ '' items)'') w1
         else fold (\<lambda>item_path. print (''        '' @ replace_dot_slash item_path))
                item_rel_paths w1)"

definition select_prompt :: string where
  "select_prompt = ''select a group to examine [dcal] or '' @ apostrophe @ ''y'' @ apostrophe
     @ '' to install the new or '' @ apostrophe @ ''n'' @ apostrophe @ '' to skip it:''"

definition examine :: "string \<Rightarrow> string \<Rightarrow> string list \<Rightarrow> world \<Rightarrow> world" where
  "examine cur_root new_root item_rel_paths w =
     fold (\<lambda>item_rel_path. gdiff (cur_root @ ''/'' @ item_rel_path)
                                 (new_root @ ''/'' @ item_rel_path))
          item_rel_paths w"

lemma stdin_stderr [simp]: "stdin (stderr s w) = stdin w"
  by (simp add: stderr_def)

lemma stdin_print [simp]: "stdin (print s w) = stdin w"
  by (simp add: print_def)

lemma stdin_gdiff [simp]: "stdin (gdiff a b w) = stdin w"
  by (simp add: gdiff_def Let_def)

lemma stdin_examine [simp]: "stdin (examine cur_root new_root ps w) = stdin w"
  unfolding examine_def by (induction ps arbitrary: w) simp_all

lemma get_input_consumes:
  "get_input prompt valid w = (Inr r, w') \<Longrightarrow> length (stdin w') < length (stdin w)"
proof (induction prompt valid w rule: get_input.induct)
  case (1 prompt valid w)
  show ?case
  proof (cases "stdin w")
    case Nil
    with "1.prems" show ?thesis by (simp add: get_input.simps [of prompt valid w])
  next
    case (Cons response rest)
    show ?thesis
    proof (cases "response \<in> set valid")
      case True
      with Cons "1.prems" show ?thesis
        by (auto simp: get_input.simps [of prompt valid w])
    next
      case False
      with Cons "1.prems" "1.IH" [OF Cons refl False]
      show ?thesis
        by (auto simp: get_input.simps [of prompt valid w])
    qed
  qed
qed

function select_loop :: "string \<Rightarrow> string \<Rightarrow> groups \<Rightarrow> unit io" where
  "select_loop cur_root new_root would w =
     (case get_input select_prompt [''d'', ''c'', ''a'', ''l'', ''y'', ''n''] (stderr [] w) of
        (Inl e, w1) \<Rightarrow> (Inl e, w1)
      | (Inr response, w1) \<Rightarrow>
          if response = ''y'' then
            then_do (fs_op (\<lambda>r. shutil_rmtree r cur_root))
              (\<lambda>_. fs_op (\<lambda>r. os_rename r new_root cur_root))
              (stderr (''installing '' @ new_root @ ''...'') w1)
          else if response = ''n'' then
            (Inr (), stderr (''skipping '' @ new_root @ ''...'') w1)
          else
            (case map_of [(''d'', ''delete''), (''c'', ''create''), (''a'', ''alter''),
                          (''l'', ''leave'')] response of
               None \<Rightarrow> (Inl KeyError, w1)
             | Some verb \<Rightarrow>
                 (case map_of would verb of
                    None \<Rightarrow> (Inl KeyError, w1)
                  | Some item_rel_paths \<Rightarrow>
                      select_loop cur_root new_root would
                        (examine cur_root new_root item_rel_paths w1))))"
  by pat_completeness auto
termination
  by (relation "measure (\<lambda>(cur_root, new_root, would, w). length (stdin w))")
     (auto dest!: get_input_consumes [OF sym])

declare select_loop.simps [simp del]

definition handle_dirs :: "string \<Rightarrow> string \<Rightarrow> unit io" where
  "handle_dirs cur_root new_root w =
     (case recurse_on_rel_path cur_root new_root
             (os_stat (fs w) (cur_root @ ''/'' @ ''.'')) (os_stat (fs w) (new_root @ ''/'' @ ''.''))
             ''.'' [] w of
        (Inl e, w1) \<Rightarrow> (Inl e, w1)
      | (Inr action_for_item, w1) \<Rightarrow>
          (case would_of action_for_item of
             Inl e \<Rightarrow> (Inl e, w1)
           | Inr would \<Rightarrow>
               (let w2 = print (''Replacing '' @ cur_root @ '' with '' @ new_root @ '' would...'')
                           (print [] w1)
                in if list_all (\<lambda>verb. length (would_at would verb) = 0)
                        [''delete'', ''create'', ''alter'']
                   then fs_op (\<lambda>r. shutil_rmtree r new_root)
                          (print (''    so removing '' @ new_root @ ''...'')
                             (print ''    have no effect,'' w2))
                   else select_loop cur_root new_root would (fold report_group would w2))))"

section \<open>The command line\<close>

definition endswith :: "string \<Rightarrow> string \<Rightarrow> bool" where
  "endswith s suffix \<longleftrightarrow>
     length suffix \<le> length s \<and> drop (length s - length suffix) s = suffix"

text \<open>
  The body of the loop over the arguments, in two parts: the two paths that an argument
  names, and what is done with them; \<^verbatim>\<open>continue\<close> is a normal return.
\<close>

definition arg_paths :: "string option \<Rightarrow> string \<Rightarrow> string \<times> string" where
  "arg_paths common_dir_prefix arg =
     (let p = (case common_dir_prefix of
                 None \<Rightarrow> arg
               | Some prefix \<Rightarrow> if prefix \<noteq> [] then prefix @ ''/'' @ arg else arg)
      in if endswith p ''.new'' then (take (length p - 4) p, p) else (p, p @ ''.new''))"

definition handle_pair :: "string \<Rightarrow> string \<Rightarrow> unit io" where
  "handle_pair cur_path new_path w =
     (if \<not> os_path_exists (fs w) new_path then
        (Inr (), stderr (''ERROR: new_path does not exist: '' @ new_path) w)
      else if \<not> os_path_exists (fs w) cur_path then
        fs_op (\<lambda>r. os_rename r new_path cur_path)
          (stderr (cur_path @ '' does not exist, so installing '' @ new_path @ '' there'') w)
      else
        (case get_type (fs w) cur_path of
           Inl e \<Rightarrow> (Inl e, w)
         | Inr cur_type \<Rightarrow>
             if cur_type = ''other'' then
               (Inr (), stderr (''ERROR: '' @ cur_path
                                @ '' is neither a regular file nor a directory.'') w)
             else
               (case get_type (fs w) new_path of
                  Inl e \<Rightarrow> (Inl e, w)
                | Inr new_type \<Rightarrow>
                    if new_type = ''other'' then
                      (Inr (), stderr (''ERROR: '' @ new_path
                                       @ '' is neither a regular file nor a directory.'') w)
                    else if cur_type \<noteq> new_type then
                      (Inr (), stderr (''ERROR: '' @ cur_path @ '' is a '' @ cur_type
                                       @ '', but '' @ new_path @ '' is a '' @ new_type) w)
                    else if cur_type = ''reg'' then handle_files cur_path new_path w
                    else if cur_type = ''dir'' then handle_dirs cur_path new_path w
                    else (Inl AssertionError, w))))"

definition handle_arg :: "string option \<Rightarrow> string \<Rightarrow> unit io" where
  "handle_arg common_dir_prefix arg w =
     (case arg_paths common_dir_prefix arg of
        (cur_path, new_path) \<Rightarrow> handle_pair cur_path new_path w)"

fun for_args :: "string option \<Rightarrow> string list \<Rightarrow> unit io" where
  "for_args common_dir_prefix [] w = (Inr (), w)"
| "for_args common_dir_prefix (arg # args) w =
     (case handle_arg common_dir_prefix arg w of
        (Inl e, w') \<Rightarrow> (Inl e, w')
      | (Inr u, w') \<Rightarrow> for_args common_dir_prefix args w')"

text \<open>\<^verbatim>\<open>main\<close> on \<^verbatim>\<open>sys.argv\<close>; \<^verbatim>\<open>pop(0)\<close> and \<^verbatim>\<open>argv[0]\<close> raise \<^verbatim>\<open>IndexError\<close> on an empty list.\<close>

definition main :: "string list \<Rightarrow> unit io" where
  "main argv w =
     (case argv of
        [] \<Rightarrow> (Inl IndexError, w)
      | executable # argv1 \<Rightarrow>
          (case argv1 of
             [] \<Rightarrow> (Inl IndexError, w)
           | a # argv2 \<Rightarrow>
               if a = ''-d'' then
                 (case argv2 of
                    [] \<Rightarrow> (Inl IndexError, w)
                  | common_dir_prefix # argv3 \<Rightarrow> for_args (Some common_dir_prefix) argv3 w)
               else for_args None argv1 w))"

section \<open>Examples\<close>

text \<open>A process that starts on the file system \<open>r\<close> with the lines \<open>inp\<close> to read.\<close>

definition world_of :: "node \<Rightarrow> string list \<Rightarrow> world" where
  "world_of r inp = \<lparr>fs = r, stdin = inp, trace = [], viewer_status = []\<rparr>"

definition files_differ :: node where
  "files_differ =
     Dir [(''f'', Reg ''old''), (''f.new'', Reg ''new''), (''f.bak'', Dir [(''z'', Reg ''older'')])]"

definition files_link_backup :: node where
  "files_link_backup =
     Dir [(''f'', Reg ''old''), (''f.new'', Reg ''new''), (''f.bak'', Lnk (Some (Dir [])))]"

definition files_same :: node where
  "files_same = Dir [(''f'', Reg ''same''), (''f.new'', Reg ''same'')]"

definition trees_differ :: node where
  "trees_differ =
     Dir [(''p'', Dir [(''a'', Reg ''1''), (''b'', Reg ''2'')]),
          (''p.new'', Dir [(''c'', Reg ''3''), (''a'', Reg ''1'')])]"

definition trees_reordered :: node where
  "trees_reordered =
     Dir [(''p.new'', Dir [(''a'', Reg ''1''), (''c'', Reg ''3'')]),
          (''p'', Dir [(''b'', Reg ''2''), (''a'', Reg ''1'')])]"

definition trees_same :: node where
  "trees_same =
     Dir [(''p'', Dir [(''a'', Reg ''1''), (''.a.swp'', Reg ''x'')]),
          (''p.new'', Dir [(''a'', Reg ''1'')])]"

definition actions_differ :: "(string \<times> action) list" where
  "actions_differ =
     [(''./a'', ''leave'', [entry_of ''p/.'' (''a'', Reg ''1''), entry_of ''p.new/.'' (''a'', Reg ''1'')]),
      (''./b'', ''delete'', [entry_of ''p/.'' (''b'', Reg ''2'')]),
      (''./c'', ''create'', [entry_of ''p.new/.'' (''c'', Reg ''3'')])]"

definition actions_same :: "(string \<times> action) list" where
  "actions_same =
     [(''./a'', ''leave'', [entry_of ''p/.'' (''a'', Reg ''1''), entry_of ''p.new/.'' (''a'', Reg ''1'')])]"

definition top_mismatch :: node where
  "top_mismatch = Dir [(''f'', Reg ''1''), (''f.new'', Dir []), (''g'', Reg ''2'')]"

definition deep_mismatch :: node where
  "deep_mismatch =
     Dir [(''p'', Dir [(''x'', Reg ''1'')]), (''p.new'', Dir [(''x'', Dir [])]),
          (''f'', Reg ''same''), (''f.new'', Reg ''same'')]"

definition links_fs :: node where
  "links_fs =
     Dir [(''p'', Dir [(''s'', Lnk (Some (Dir [(''f'', Reg ''1'')])))]),
          (''p.new'', Dir [(''s'', Lnk (Some (Dir [(''f'', Reg ''2'')])))])]"

definition swap_cur :: "(string \<times> node) list" where
  "swap_cur = [(''a'', Reg ''1''), (''.a.swp'', Reg ''x'')]"

definition swap_new :: "(string \<times> node) list" where
  "swap_new = [(''.b.swp'', Reg ''y''), (''a'', Reg ''2'')]"

section \<open>Vocabulary of the statements\<close>

text \<open>
  \<open>extends_quietly w w'\<close>: from \<open>w\<close> to \<open>w'\<close> nothing has happened but lines written to
  standard error.
\<close>

fun is_stderr :: "event \<Rightarrow> bool" where
  "is_stderr (Stderr s) = True"
| "is_stderr e = False"

definition extends_quietly :: "world \<Rightarrow> world \<Rightarrow> bool" where
  "extends_quietly w w' \<longleftrightarrow>
     fs w' = fs w \<and> stdin w' = stdin w \<and> viewer_status w' = viewer_status w
     \<and> take (length (trace w)) (trace w') = trace w
     \<and> list_all is_stderr (drop (length (trace w)) (trace w'))"

text \<open>The four verbs, in the order of the keys of \<^verbatim>\<open>would_\<close>.\<close>

definition verbs :: "string list" where
  "verbs = [''delete'', ''create'', ''alter'', ''leave'']"

text \<open>
  A well-formed tree: in every directory the names are distinct, not empty, without
  \<^verbatim>\<open>/\<close>, and neither \<^verbatim>\<open>.\<close> nor \<^verbatim>\<open>..\<close>.
\<close>

definition valid_name :: "string \<Rightarrow> bool" where
  "valid_name nm \<longleftrightarrow> nm \<noteq> [] \<and> CHR ''/'' \<notin> set nm \<and> nm \<noteq> ''.'' \<and> nm \<noteq> ''..''"

fun wf_node :: "node \<Rightarrow> bool" where
  "wf_node (Dir es) =
     (distinct (map fst es) \<and> list_all (\<lambda>e. valid_name (fst e) \<and> wf_node (snd e)) es)"
| "wf_node (Lnk (Some t)) = wf_node t"
| "wf_node n = True"

text \<open>
  \<open>same_tree x y\<close>: the two trees have the same content at every path; the listings of
  their directories may be in any order.
\<close>

fun same_tree :: "node \<Rightarrow> node \<Rightarrow> bool" where
  "same_tree (Dir es) m =
     (case m of
        Dir es' \<Rightarrow> distinct (map fst es) \<and> distinct (map fst es')
                   \<and> set (map fst es) = set (map fst es')
                   \<and> list_all (\<lambda>e. case map_of es' (fst e) of
                                      None \<Rightarrow> False
                                    | Some y \<Rightarrow> same_tree (snd e) y) es
      | _ \<Rightarrow> False)"
| "same_tree (Lnk (Some t)) m = (case m of Lnk (Some t') \<Rightarrow> same_tree t t' | _ \<Rightarrow> False)"
| "same_tree n m = (n = m)"


text \<open>
  \<open>clean_path p\<close>: no component of the path matches the pattern of the swap files;
  \<open>swap_free\<close>: every key of the actions is such a path and no entry of an action has
  such a name.
\<close>

definition clean_path :: "string \<Rightarrow> bool" where
  "clean_path p \<longleftrightarrow> list_all (\<lambda>nm. \<not> fnmatchcase nm ''.*.swp'') (components p)"

definition swap_free :: "(string \<times> action) list \<Rightarrow> bool" where
  "swap_free acts \<longleftrightarrow>
     list_all (\<lambda>x. clean_path (fst x)
                 \<and> list_all (\<lambda>e. \<not> fnmatchcase (entry_name e) ''.*.swp'') (snd (snd x))) acts"

text \<open>
  \<open>mismatch ces nes\<close>: in the two listings, or in two directories that the traversal
  reaches from them, some name that is not ignored is on both sides and the two entries
  are neither both regular files nor both directories (with \<^verbatim>\<open>is_file\<close> and \<^verbatim>\<open>is_dir\<close>
  as the traversal asks them).
\<close>

definition dir_of :: "node \<Rightarrow> (string \<times> node) list option" where
  "dir_of x = (case follow x of Some (Dir es) \<Rightarrow> Some es | _ \<Rightarrow> None)"

lemma mem_size: "e \<in> set es \<Longrightarrow> size (snd e) < size (Dir es)"
  by (induction es) auto

lemma dir_of_size: "dir_of x = Some a \<Longrightarrow> size (Dir a) \<le> size x"
  by (auto simp: dir_of_def split: option.splits node.splits dest: follow_size)

function mismatch :: "(string \<times> node) list \<Rightarrow> (string \<times> node) list \<Rightarrow> bool" where
  "mismatch ces nes =
     list_ex (\<lambda>e. \<not> fnmatchcase (fst e) ''.*.swp''
                 \<and> (case map_of nes (fst e) of
                      None \<Rightarrow> False
                    | Some y \<Rightarrow>
                        \<not> (is_regular (snd e) \<and> is_regular y)
                        \<and> (case dir_of (snd e) of
                             None \<Rightarrow> True
                           | Some a \<Rightarrow> (case dir_of y of
                                          None \<Rightarrow> True
                                        | Some b \<Rightarrow> mismatch a b)))) ces"
  by pat_completeness auto
termination
proof (relation "measure (\<lambda>(ces, nes). size (Dir ces))", goal_cases)
  case 1
  show ?case by simp
next
  case (2 ces nes e y a b)
  then have "e \<in> set ces" "dir_of (snd e) = Some a" by simp_all
  from mem_size [OF this(1)] dir_of_size [OF this(2)] show ?case by simp
qed

declare mismatch.simps [simp del]


section \<open>Vocabulary of the proofs\<close>

text \<open>
  \<open>resolve_dir n ds\<close> is the listing of the directory that the components \<open>ds\<close> lead
  to. The paths the program changes are a path, the same with \<^verbatim>\<open>.new\<close> and the same with
  \<^verbatim>\<open>.bak\<close>: three names in one directory.
\<close>

definition resolve_dir :: "node \<Rightarrow> string list \<Rightarrow> (string \<times> node) list option" where
  "resolve_dir n ds =
     (case walk n ds of
        None \<Rightarrow> None
      | Some m \<Rightarrow> (case follow m of Some (Dir es) \<Rightarrow> Some es | _ \<Rightarrow> None))"

text \<open>
  An invariant of the dictionary of actions holds of what a traversal returns; the verbs
  of the actions are among the four.
\<close>

definition holds_after :: "('a \<Rightarrow> bool) \<Rightarrow> (error + 'a) \<times> world \<Rightarrow> bool" where
  "holds_after I res = (case fst res of Inl e \<Rightarrow> True | Inr a \<Rightarrow> I a)"

definition verbs_ok :: "(string \<times> action) list \<Rightarrow> bool" where
  "verbs_ok acts \<longleftrightarrow> list_all (\<lambda>x. fst (snd x) \<in> set verbs) acts"

text \<open>
  What the dictionary \<^verbatim>\<open>d\<close> of one level holds, as a function of the two listings, and
  the invariants of the loop over its items.
\<close>

definition slot :: "string \<Rightarrow> (string \<times> node) list \<Rightarrow> string \<Rightarrow> dir_entry option" where
  "slot p es nm = (case map_of es nm of None \<Rightarrow> None | Some x \<Rightarrow> Some (entry_of p (nm, x)))"

definition pairing_map ::
    "string \<Rightarrow> string \<Rightarrow> (string \<times> node) list \<Rightarrow> (string \<times> node) list
       \<Rightarrow> string \<Rightarrow> (dir_entry option \<times> dir_entry option) option" where
  "pairing_map pc pn ces nes nm =
     (if fnmatchcase nm ''.*.swp'' \<or> (map_of ces nm = None \<and> map_of nes nm = None) then None
      else Some (slot pc ces nm, slot pn nes nm))"

definition wf_opt :: "node option \<Rightarrow> bool" where
  "wf_opt c = (case c of None \<Rightarrow> True | Some x \<Rightarrow> wf_node x)"

definition items_ok :: "pairing \<Rightarrow> bool" where
  "items_ok items \<longleftrightarrow>
     list_all (\<lambda>it. \<not> fnmatchcase (fst it) ''.*.swp'' \<and> CHR ''/'' \<notin> set (fst it)
                  \<and> (case fst (snd it) of None \<Rightarrow> True | Some e \<Rightarrow> entry_name e = fst it)
                  \<and> (case snd (snd it) of None \<Rightarrow> True | Some e \<Rightarrow> entry_name e = fst it)) items"

definition item_mismatch :: "(string \<times> node) list \<Rightarrow> (string \<times> node) list \<Rightarrow> string \<Rightarrow> bool" where
  "item_mismatch ces nes nm =
     (case map_of ces nm of
        None \<Rightarrow> False
      | Some x \<Rightarrow>
          (case map_of nes nm of
             None \<Rightarrow> False
           | Some y \<Rightarrow>
               \<not> (is_regular x \<and> is_regular y)
               \<and> (case dir_of x of
                    None \<Rightarrow> True
                  | Some a \<Rightarrow> (case dir_of y of None \<Rightarrow> True | Some b \<Rightarrow> mismatch a b))))"

definition consistent ::
    "string \<Rightarrow> string \<Rightarrow> (string \<times> node) list \<Rightarrow> (string \<times> node) list \<Rightarrow> pairing \<Rightarrow> bool" where
  "consistent pc pn ces nes items \<longleftrightarrow>
     (\<forall>it\<in>set items. pairing_map pc pn ces nes (fst it) = Some (snd it))"

definition outcome :: "bool \<Rightarrow> error + 'a \<Rightarrow> bool" where
  "outcome b r = (case r of Inl e \<Rightarrow> e = AssertionError \<and> b | Inr a \<Rightarrow> \<not> b)"

section \<open>Paths that name entries of one directory\<close>

lemma split_on_nonempty [simp]: "split_on sep p \<noteq> []"
  by (induction p) auto

lemma split_on_append:
  "sep \<notin> set s \<Longrightarrow>
   split_on sep (p @ s) = butlast (split_on sep p) @ [last (split_on sep p) @ s]"
proof (induction p)
  case Nil
  then show ?case by (induction s) auto
next
  case (Cons c p)
  then show ?case
    by (cases "split_on sep p") (auto simp: butlast_append)
qed

lemma follow_not_link: "follow n = Some m \<Longrightarrow> \<not> is_link m"
  by (induction n rule: follow.induct) (auto simp: is_link_def)

lemma walk_snoc:
  "walk n (ds @ [c]) =
     (case resolve_dir n ds of
        None \<Rightarrow> None
      | Some es \<Rightarrow> if stays c then Some (Dir es) else map_of es c)"
proof (induction ds arbitrary: n)
  case Nil
  show ?case
    by (auto simp: resolve_dir_def split: option.splits node.splits)
next
  case (Cons d ds)
  show ?case
    using Cons.IH
    by (auto simp: resolve_dir_def split: option.splits node.splits)
qed

lemma resolve_dir_link [simp]: "resolve_dir (Lnk (Some t)) ds = resolve_dir t ds"
  by (cases ds) (auto simp: resolve_dir_def)

lemma resolve_dir_Nil_Dir [simp]: "resolve_dir (Dir es) [] = Some es"
  by (simp add: resolve_dir_def)

lemma resolve_dir_Cons_Dir:
  "resolve_dir (Dir es) (d # ds) =
     (if stays d then resolve_dir (Dir es) ds
      else (case map_of es d of None \<Rightarrow> None | Some m \<Rightarrow> resolve_dir m ds))"
  by (auto simp: resolve_dir_def split: option.splits)

lemma resolve_dir_stays: "stays d \<Longrightarrow> resolve_dir n (d # ds) = resolve_dir n ds"
  by (cases ds) (auto simp: resolve_dir_def split: option.splits node.splits)

lemma resolve_dir_leaf [simp]:
  "resolve_dir (Reg b) ds = None" "resolve_dir Special ds = None" "resolve_dir (Lnk None) ds = None"
  by (cases ds; simp add: resolve_dir_def)+

lemma put_snoc:
  "resolve_dir n ds = Some es \<Longrightarrow> \<not> stays c \<Longrightarrow>
   \<exists>n'. put (ds @ [c]) v n = Some n' \<and> resolve_dir n' ds = Some (set_entry c v es)"
proof (induction "ds @ [c]" v n arbitrary: ds es rule: put.induct)
  case (1 v n)
  then show ?case by simp
next
  case (2 c0 cs0 v es0)
  show ?case
  proof (cases ds)
    case Nil
    with 2 show ?thesis by auto
  next
    case (Cons d ds')
    with "2.hyps"(3) have eq: "c0 = d" "cs0 = ds' @ [c]" by auto
    show ?thesis
    proof (cases "stays d")
      case True
      with "2.hyps"(1) [of ds' es] "2.prems" eq Cons show ?thesis
        by (auto simp: resolve_dir_stays)
    next
      case False
      with "2.prems" Cons obtain m where m: "map_of es0 d = Some m" "resolve_dir m ds' = Some es"
        by (auto simp: resolve_dir_Cons_Dir split: option.splits)
      from "2.hyps"(2) [of m ds' es] False eq m "2.prems"
      obtain m' where "put (ds' @ [c]) v m = Some m'" "resolve_dir m' ds' = Some (set_entry c v es)"
        by auto
      with False eq m Cons show ?thesis
        by (auto simp: resolve_dir_Cons_Dir update_conv')
    qed
  qed
next
  case (3 c0 cs0 v t)
  from "3.hyps"(1) [of ds es] "3.hyps"(2) "3.prems"
  obtain t' where "put (ds @ [c]) v t = Some t'" "resolve_dir t' ds = Some (set_entry c v es)"
    by auto
  with "3.hyps"(2) [symmetric] show ?case by auto
qed simp_all


lemma components_append:
  "CHR ''/'' \<notin> set s \<Longrightarrow>
   components (p @ s) = butlast (components p) @ [last (components p) @ s]"
  unfolding components_def by (rule split_on_append)

lemma components_snoc: "components p = butlast (components p) @ [last (components p)]"
  by (simp add: components_def)

lemma split_on_no_sep: "sep \<notin> set s \<Longrightarrow> split_on sep s = [s]"
  by (induction s) auto

lemma split_on_sep_append:
  "split_on sep (p @ sep # s) = split_on sep p @ split_on sep s"
  by (induction p) auto

lemma components_slash:
  "CHR ''/'' \<notin> set nm \<Longrightarrow> components (p @ ''/'' @ nm) = components p @ [nm]"
  by (simp add: components_def split_on_sep_append split_on_no_sep)

lemma lstat_at:
  "components p = ds @ [b] \<Longrightarrow> \<not> stays b \<Longrightarrow>
   os_lstat root p = (case resolve_dir root ds of None \<Rightarrow> None | Some es \<Rightarrow> map_of es b)"
  by (cases p) (auto simp: os_lstat_def walk_snoc components_def stays_def split: option.splits)

lemma lstat_nondirE:
  assumes "os_lstat root p = Some x" "\<not> is_directory x"
  obtains es where "resolve_dir root (butlast (components p)) = Some es"
    and "\<not> stays (last (components p))" and "map_of es (last (components p)) = Some x"
proof -
  from assms(1) have "walk root (butlast (components p) @ [last (components p)]) = Some x"
    using components_snoc [of p] by (auto simp: os_lstat_def split: if_splits)
  with assms(2) that show ?thesis
    by (auto simp: walk_snoc is_directory_def split: option.splits if_splits)
qed

lemma unlink_at:
  assumes "resolve_dir root ds = Some es" "components p = ds @ [b]" "\<not> stays b"
  shows "\<exists>r. unlink root p = Inr r \<and> resolve_dir r ds = Some (AList.delete b es)"
proof -
  from assms(2,3) have "p \<noteq> []" by (auto simp: components_def stays_def)
  with put_snoc [OF assms(1,3), of None] assms(2) show ?thesis
    by (auto simp: unlink_def)
qed

lemma rename_at:
  assumes "resolve_dir root ds = Some es"
    and "components src = ds @ [s]" "\<not> stays s"
    and "components dst = ds @ [d]" "\<not> stays d"
    and "map_of es s = Some x"
    and "case map_of es d of None \<Rightarrow> True | Some (Dir es') \<Rightarrow> is_directory x \<and> es' = []
         | Some y \<Rightarrow> \<not> is_directory x"
  shows "\<exists>r. os_rename root src dst = Inr r
            \<and> resolve_dir r ds = Some (AList.update d x (AList.delete s es))"
proof -
  from assms(4,5) have dst: "dst \<noteq> []" by (auto simp: components_def stays_def)
  have src: "os_lstat root src = Some x"
    using assms(1,2,3,6) by (simp add: lstat_at)
  have dstl: "os_lstat root dst = map_of es d"
    using assms(1,4,5) by (simp add: lstat_at)
  from unlink_at [OF assms(1,2,3)] obtain r1
    where r1: "unlink root src = Inr r1" "resolve_dir r1 ds = Some (AList.delete s es)"
    by blast
  from put_snoc [OF r1(2) assms(5), of "Some x"] obtain r2
    where r2: "put (ds @ [d]) (Some x) r1 = Some r2"
      "resolve_dir r2 ds = Some (AList.update d x (AList.delete s es))"
    by auto
  from assms(7) have ok: "(case map_of es d of None \<Rightarrow> True
      | Some (Dir es') \<Rightarrow> is_directory x \<and> es' = [] | Some y \<Rightarrow> \<not> is_directory x) = True"
    by simp
  show ?thesis
    unfolding os_rename_def src dstl using r1 r2 dst assms(4) ok
    by simp
qed

lemma get_input_valid:
  assumes "stdin w = bad @ r # rest" "\<forall>x\<in>set bad. x \<notin> set valid" "r \<in> set valid"
  shows "\<exists>w'. get_input prompt valid w = (Inr r, w') \<and> fs w' = fs w \<and> stdin w' = rest
              \<and> viewer_status w' = viewer_status w"
  using assms
proof (induction bad arbitrary: w)
  case Nil
  then show ?case by (simp add: get_input.simps [of prompt valid w])
next
  case (Cons x bad)
  let ?w1 = "stderr (''You responded '' @ apostrophe @ x @ apostrophe)
               (w\<lparr>stdin := bad @ r # rest, trace := trace w @ [Prompt (prompt @ '' '')]\<rparr>)"
  have "stdin ?w1 = bad @ r # rest" by simp
  from Cons.IH [OF this] Cons.prems(2,3)
  obtain w' where "get_input prompt valid ?w1 = (Inr r, w')" "fs w' = fs ?w1" "stdin w' = rest"
    "viewer_status w' = viewer_status ?w1"
    by auto
  with Cons.prems show ?case
    by (simp add: get_input.simps [of prompt valid w] stderr_def)
qed

lemma fs_gdiff [simp]: "fs (gdiff a b w) = fs w"
  by (simp add: gdiff_def Let_def stderr_def)

lemma fs_stderr [simp]: "fs (stderr s w) = fs w"
  by (simp add: stderr_def)

lemma fs_print [simp]: "fs (print s w) = fs w"
  by (simp add: print_def)

lemma stat_at:
  "components p = ds @ [b] \<Longrightarrow> \<not> stays b \<Longrightarrow> resolve_dir root ds = Some es \<Longrightarrow>
   os_stat root p = (case map_of es b of None \<Rightarrow> None | Some x \<Rightarrow> follow x)"
  by (simp add: os_stat_def lstat_at)

lemma remove_previous_backup_at:
  assumes dir: "resolve_dir root ds = Some es"
    and p: "components p = ds @ [k]" "\<not> stays k"
    and lnk: "\<forall>t. map_of es k = Some (Lnk t) \<longrightarrow> \<not> os_path_isdir root p"
  shows "\<exists>r es1. remove_previous_backup p root = Inr r \<and> resolve_dir r ds = Some es1
           \<and> (\<forall>k'. k' \<noteq> k \<longrightarrow> map_of es1 k' = map_of es k')
           \<and> (\<forall>y. map_of es1 k = Some y \<longrightarrow> \<not> is_directory y)"
proof (cases "os_stat root p")
  case None
  then have "remove_previous_backup p root = Inr root"
    by (simp add: remove_previous_backup_def os_path_isdir_def os_path_exists_def)
  moreover have "\<forall>y. map_of es k = Some y \<longrightarrow> \<not> is_directory y"
    using None stat_at [OF p dir] by (auto simp: is_directory_def split: node.splits)
  ultimately show ?thesis using dir by auto
next
  case (Some m)
  then obtain y where y: "map_of es k = Some y" "follow y = Some m"
    using stat_at [OF p dir] by (auto split: option.splits)
  have lstat: "os_lstat root p = Some y"
    using y dir p by (simp add: lstat_at)
  from unlink_at [OF dir p] obtain r
    where r: "unlink root p = Inr r" "resolve_dir r ds = Some (AList.delete k es)"
    by blast
  have "remove_previous_backup p root = Inr r"
  proof (cases "os_path_isdir root p")
    case True
    with lnk y have "\<not> is_link y" by (auto simp: is_link_def split: node.splits)
    with True Some y(2) have "is_directory y"
      by (cases y) (auto simp: os_path_isdir_def is_directory_def is_link_def)
    with True lstat r show ?thesis
      by (simp add: remove_previous_backup_def shutil_rmtree_def)
  next
    case False
    with Some y(2) have "\<not> is_directory y"
      by (cases y) (auto simp: os_path_isdir_def is_directory_def)
    with False Some lstat r show ?thesis
      by (simp add: remove_previous_backup_def os_remove_def os_path_exists_def)
  qed
  with r show ?thesis by (auto simp: delete_conv')
qed

lemma put_SomeD:
  "put cs v n = Some n' \<Longrightarrow> \<exists>ds c es. cs = ds @ [c] \<and> \<not> stays c \<and> resolve_dir n ds = Some es"
proof (induction cs v n arbitrary: n' rule: put.induct)
  case (2 c0 cs0 v es0)
  show ?case
  proof (cases "stays c0")
    case True
    with "2.prems" have "put cs0 v (Dir es0) = Some n'" by simp
    from "2.IH"(1) [OF True this] obtain ds c es
      where "cs0 = ds @ [c]" "\<not> stays c" "resolve_dir (Dir es0) ds = Some es" by blast
    with True have "c0 # cs0 = (c0 # ds) @ [c] \<and> \<not> stays c
        \<and> resolve_dir (Dir es0) (c0 # ds) = Some es"
      by (simp add: resolve_dir_stays)
    then show ?thesis by blast
  next
    case False
    show ?thesis
    proof (cases "cs0 = []")
      case True
      with False have "c0 # cs0 = [] @ [c0] \<and> \<not> stays c0 \<and> resolve_dir (Dir es0) [] = Some es0"
        by simp
      then show ?thesis by blast
    next
      case ne: False
      with False "2.prems" obtain m m' where m: "map_of es0 c0 = Some m" "put cs0 v m = Some m'"
        by (auto split: option.splits)
      from "2.IH"(2) [OF False ne m] obtain ds c es
        where "cs0 = ds @ [c]" "\<not> stays c" "resolve_dir m ds = Some es" by blast
      with False m have "c0 # cs0 = (c0 # ds) @ [c] \<and> \<not> stays c
          \<and> resolve_dir (Dir es0) (c0 # ds) = Some es"
        by (simp add: resolve_dir_Cons_Dir)
      then show ?thesis by blast
    qed
  qed
next
  case (3 c0 cs0 v t)
  then obtain t' where "put (c0 # cs0) v t = Some t'" by (auto split: option.splits)
  from "3.IH" [OF this] show ?case by simp
qed simp_all

lemma unlink_gone: "unlink root p = Inr r \<Longrightarrow> os_lstat r p = None"
proof -
  assume u: "unlink root p = Inr r"
  then have p: "put (components p) None root = Some r"
    by (auto simp: unlink_def split: if_splits option.splits)
  from put_SomeD [OF this] obtain ds c es
    where d: "components p = ds @ [c]" "\<not> stays c" "resolve_dir root ds = Some es" by blast
  from put_snoc [OF d(3,2), of None] p d(1) have "resolve_dir r ds = Some (AList.delete c es)"
    by simp
  then show ?thesis by (simp add: lstat_at [OF d(1,2)] delete_conv')
qed

section \<open>The directories that the traversal lists\<close>

text \<open>
  The traversal lists \<^verbatim>\<open>root + '/' + dir_rel_path\<close> and descends to
  \<^verbatim>\<open>dir_rel_path + '/' + item_name\<close>. In the model the directory of the deeper level is
  \<open>child\<close> of the directory of this level; for a name as directories have them, that
  is what \<^verbatim>\<open>os.stat\<close> gives for the longer path, so that \<^verbatim>\<open>os.scandir\<close> lists the same
  directory and \<^verbatim>\<open>filecmp.cmp\<close> on the paths of two entries compares the same files.
  The loop descends with the children of both sides, whether they resolve or not.
\<close>

lemma stat_child:
  assumes "p \<noteq> []" "CHR ''/'' \<notin> set nm" "\<not> stays nm"
  shows "os_stat root (p @ ''/'' @ nm) = child (os_stat root p) nm"
proof -
  have cs: "components (p @ ''/'' @ nm) = components p @ [nm]"
    using assms(2) by (rule components_slash)
  have l: "os_lstat root (p @ ''/'' @ nm)
      = (case resolve_dir root (components p) of None \<Rightarrow> None | Some es \<Rightarrow> map_of es nm)"
    by (rule lstat_at [OF cs assms(3)])
  have r: "resolve_dir root (components p)
      = (case os_stat root p of Some (Dir es) \<Rightarrow> Some es | _ \<Rightarrow> None)"
    using assms(1) by (simp add: resolve_dir_def os_stat_def os_lstat_def split: option.splits)
  show ?thesis
    unfolding os_stat_def [of root "p @ ''/'' @ nm"] l r
    by (auto simp: child_def split: option.splits node.splits)
qed


lemma recurse_unresolved:
  "recurse_on_rel_path cur_root new_root None n rel acts w = (Inl OSError, w)"
  by (simp add: recurse_on_rel_path.simps scan_roots_def scandir_def)

lemma for_items_descend:
  assumes "\<not> (is_file_nofollow ce \<and> is_file_nofollow ne)" "is_dir ce \<and> is_dir ne"
  shows "for_items cur_root new_root c n rel ((nm, Some ce, Some ne) # items) acts w =
     (case recurse_on_rel_path cur_root new_root (child c nm) (child n nm) (rel @ ''/'' @ nm) acts w of
        (Inl e, w') \<Rightarrow> (Inl e, w')
      | (Inr acts', w') \<Rightarrow> for_items cur_root new_root c n rel items acts' w')"
proof (cases "child c nm")
  case None
  with assms show ?thesis by (auto simp: recurse_unresolved)
next
  case (Some cd)
  with assms show ?thesis by auto
qed

lemma scandir_child:
  assumes "p \<noteq> []" "CHR ''/'' \<notin> set nm" "\<not> stays nm"
  shows "os_scandir root (p @ ''/'' @ nm) = scandir (child (os_stat root p) nm) (p @ ''/'' @ nm)"
  unfolding os_scandir_def stat_child [OF assms] ..

lemma entry_path_child:
  assumes "p \<noteq> []" "last p \<noteq> CHR ''/''" "CHR ''/'' \<notin> set nm" "\<not> stays nm"
  shows "os_stat root (entry_path (entry_of p (nm, x))) = child (os_stat root p) nm"
proof -
  from assms(3,4) have "nm \<noteq> []" "hd nm \<noteq> CHR ''/''"
    by (auto simp: stays_def) (cases nm, auto)
  with assms(1,2) have "entry_path (entry_of p (nm, x)) = p @ ''/'' @ nm"
    by (simp add: entry_of_def os_path_join_def)
  with stat_child [OF assms(1,3,4)] show ?thesis by simp
qed

lemmas os_defs = os_lstat_def os_stat_def os_path_exists_def os_path_isdir_def components_def
  stays_def unlink_def os_remove_def shutil_rmtree_def os_rename_def filecmp_cmp_def
  is_directory_def is_regular_def is_link_def get_type_def

lemmas io_defs = then_do_def fs_op_def print_def stderr_def gdiff_def get_input.simps
  world_of_def

lemmas dir_defs = recurse_on_rel_path.simps scan_roots_def scandir_def entry_of_def
  os_path_join_def d_set_def child_def would_of_def would_empty_def would_append_def would_at_def
  fnmatchcase.simps


section \<open>The traversal changes nothing and keeps the shape of the actions\<close>

lemma extends_quietly_iff:
  "extends_quietly w w' \<longleftrightarrow>
     fs w' = fs w \<and> stdin w' = stdin w \<and> viewer_status w' = viewer_status w
     \<and> (\<exists>t. trace w' = trace w @ t \<and> list_all is_stderr t)"
  unfolding extends_quietly_def
  by (metis append_eq_conv_conj append_take_drop_id)

lemma extends_quietly_refl [simp]: "extends_quietly w w"
  by (simp add: extends_quietly_iff)

lemma extends_quietly_trans:
  "extends_quietly w w1 \<Longrightarrow> extends_quietly w1 w2 \<Longrightarrow> extends_quietly w w2"
  unfolding extends_quietly_iff by (auto simp: list_all_append)

lemma extends_quietly_stderr: "extends_quietly w (stderr s w)"
  by (simp add: extends_quietly_iff stderr_def)

lemma scan_entries_quiet:
  "extends_quietly w (snd (scan_entries i p entries (d, w)))"
proof (induction entries arbitrary: d w)
  case Nil
  show ?case by simp
next
  case (Cons e entries)
  show ?case
    using Cons.IH
    by (auto intro: extends_quietly_trans [OF extends_quietly_stderr])
qed

lemma scan_roots_quiet:
  "extends_quietly w (snd (scan_roots cur_root new_root c n rel w))"
proof -
  have *: "\<And>i p es d w d' w'. scan_entries i p es (d, w) = (d', w') \<Longrightarrow> extends_quietly w w'"
    using scan_entries_quiet by (metis snd_conv)
  show ?thesis
    unfolding scan_roots_def
    by (auto split: sum.splits prod.splits dest!: * intro: extends_quietly_trans)
qed

lemma traversal_quiet:
  "extends_quietly w (snd (recurse_on_rel_path cur_root new_root c n rel acts w))"
  "extends_quietly w (snd (for_items cur_root new_root c n rel items acts w))"
proof (induction cur_root new_root c n rel acts w and cur_root new_root c n rel items acts w
       rule: recurse_on_rel_path_for_items.induct)
  case (1 cur_root new_root c n dir_rel_path acts w)
  show ?case
  proof (cases "scan_roots cur_root new_root c n dir_rel_path w")
    case (Pair r w1)
    have q: "extends_quietly w w1"
      using scan_roots_quiet [of w cur_root new_root c n dir_rel_path] Pair by simp
    show ?thesis
    proof (cases r)
      case (Inl e)
      with Pair q show ?thesis by (simp add: recurse_on_rel_path.simps)
    next
      case (Inr d)
      with Pair q "1.IH" [of r w1 d] show ?thesis
        by (auto simp: recurse_on_rel_path.simps intro: extends_quietly_trans)
    qed
  qed
next
  case (6 cur_root new_root c n dir_rel_path item_name ce ne items acts w)
  show ?case
  proof (cases "is_file_nofollow ce \<and> is_file_nofollow ne")
    case True
    with "6.IH"(1) show ?thesis by (auto split: sum.splits)
  next
    case False
    then have nf: "(is_file_nofollow ce \<and> is_file_nofollow ne) = False" by simp
    show ?thesis
    proof (cases "is_dir ce \<and> is_dir ne")
      case dirs: True
      then have d: "(is_dir ce \<and> is_dir ne) = True" by simp
      show ?thesis
      proof (cases "child c item_name")
        case None
        with False dirs show ?thesis by auto
      next
        case (Some cd)
        obtain r w1 where rec: "recurse_on_rel_path cur_root new_root (Some cd) (child n item_name)
            (dir_rel_path @ ''/'' @ item_name) acts w = (r, w1)"
          by (cases "recurse_on_rel_path cur_root new_root (Some cd) (child n item_name)
            (dir_rel_path @ ''/'' @ item_name) acts w") auto
        have q: "extends_quietly w w1"
          using "6.IH"(2) [OF False dirs Some] rec by simp
        show ?thesis
        proof (cases r)
          case (Inl e)
          with False dirs Some rec q show ?thesis by auto
        next
          case (Inr acts')
          with "6.IH"(3) [OF False dirs Some rec [symmetric] Inr] q False dirs Some rec
          show ?thesis by (auto intro: extends_quietly_trans)
        qed
      qed
    next
      case False
      with \<open>\<not> (is_file_nofollow ce \<and> is_file_nofollow ne)\<close> show ?thesis by auto
    qed
  qed
qed simp_all


lemma holds_after_simps [simp]:
  "holds_after I (Inl e, w) = True" "holds_after I (Inr a, w) = I a"
  by (simp_all add: holds_after_def)

lemma traversal_invariant:
  assumes step: "\<And>k verb entries acts. I acts \<Longrightarrow> verb \<in> set verbs
                   \<Longrightarrow> I (AList.update k (verb, entries) acts)"
  shows "I acts \<Longrightarrow> holds_after I (recurse_on_rel_path cur_root new_root c n rel acts w)"
    and "I acts \<Longrightarrow> holds_after I (for_items cur_root new_root c n rel items acts w)"
proof (induction cur_root new_root c n rel acts w and cur_root new_root c n rel items acts w
       rule: recurse_on_rel_path_for_items.induct)
  case (1 cur_root new_root c n dir_rel_path acts w)
  show ?case
  proof (cases "scan_roots cur_root new_root c n dir_rel_path w")
    case (Pair r w1)
    show ?thesis
    proof (cases r)
      case (Inl e)
      with Pair show ?thesis by (simp add: recurse_on_rel_path.simps)
    next
      case (Inr d)
      with Pair "1.IH" [of r w1 d] "1.prems" show ?thesis
        by (simp add: recurse_on_rel_path.simps)
    qed
  qed
next
  case (4 cur_root new_root c n dir_rel_path item_name ce items acts w)
  have "I (AList.update (dir_rel_path @ ''/'' @ item_name) (''delete'', [ce]) acts)"
    using "4.prems" by (intro step) (simp_all add: verbs_def)
  with "4.IH" show ?case by simp
next
  case (5 cur_root new_root c n dir_rel_path item_name ne items acts w)
  have "I (AList.update (dir_rel_path @ ''/'' @ item_name) (''create'', [ne]) acts)"
    using "5.prems" by (intro step) (simp_all add: verbs_def)
  with "5.IH" show ?case by simp
next
  case (6 cur_root new_root c n dir_rel_path item_name ce ne items acts w)
  show ?case
  proof (cases "is_file_nofollow ce \<and> is_file_nofollow ne")
    case True
    show ?thesis
    proof (cases "filecmp_cmp (child c item_name) (child n item_name)")
      case (Inl e)
      with True show ?thesis by simp
    next
      case (Inr same)
      have "I (AList.update (dir_rel_path @ ''/'' @ item_name)
                 (if same then ''leave'' else ''alter'', [ce, ne]) acts)"
        using "6.prems" by (intro step) (simp_all add: verbs_def)
      then have "I (AList.update (dir_rel_path @ ''/'' @ item_name)
                 (if same then (''leave'', [ce, ne]) else (''alter'', [ce, ne])) acts)"
        by (simp split: if_splits)
      with "6.IH"(1) [OF True Inr] True Inr show ?thesis by simp
    qed
  next
    case False
    show ?thesis
    proof (cases "is_dir ce \<and> is_dir ne")
      case dirs: True
      show ?thesis
      proof (cases "child c item_name")
        case None
        with False dirs show ?thesis by auto
      next
        case (Some cd)
        obtain r w1 where rec: "recurse_on_rel_path cur_root new_root (Some cd) (child n item_name)
            (dir_rel_path @ ''/'' @ item_name) acts w = (r, w1)"
          by (cases "recurse_on_rel_path cur_root new_root (Some cd) (child n item_name)
            (dir_rel_path @ ''/'' @ item_name) acts w") auto
        have q: "holds_after I (r, w1)"
          using "6.IH"(2) [OF False dirs Some "6.prems"] rec by simp
        show ?thesis
        proof (cases r)
          case (Inl e)
          with False dirs Some rec show ?thesis by auto
        next
          case (Inr acts')
          with "6.IH"(3) [OF False dirs Some rec [symmetric] Inr] q False dirs Some rec
          show ?thesis by auto
        qed
      qed
    next
      case False
      with \<open>\<not> (is_file_nofollow ce \<and> is_file_nofollow ne)\<close> show ?thesis by auto
    qed
  qed
qed simp_all

lemma set_update_cases: "x \<in> set (AList.update k v al) \<Longrightarrow> x = (k, v) \<or> x \<in> set al"
  by (induction al) (auto split: if_splits)

lemma traversal_keeps_shape:
  assumes "recurse_on_rel_path cur_root new_root c n rel acts w = (Inr acts', w')"
    and "verbs_ok acts" "distinct (map fst acts)"
  shows "verbs_ok acts' \<and> distinct (map fst acts')"
proof -
  have "holds_after (\<lambda>a. verbs_ok a \<and> distinct (map fst a))
          (recurse_on_rel_path cur_root new_root c n rel acts w)"
    by (rule traversal_invariant(1))
       (use assms(2,3) in \<open>auto simp: verbs_ok_def list_all_iff distinct_update
          dest!: set_update_cases\<close>)
  with assms(1) show ?thesis by simp
qed

lemma traversal_quiet_result:
  "recurse_on_rel_path cur_root new_root c n rel acts w = (r, w') \<Longrightarrow> extends_quietly w w'"
  using traversal_quiet(1) [of w cur_root new_root c n rel acts] by simp

section \<open>Grouping, report and the prompt\<close>

lemma group_actions_ok:
  assumes "list_all (\<lambda>x. fst (snd x) \<in> fst ` set would) acts"
  shows "\<exists>would'. group_actions acts would = Inr would' \<and> map fst would' = map fst would
           \<and> (\<forall>v. would_at would' v = would_at would v @ map fst (filter (\<lambda>x. fst (snd x) = v) acts))"
  using assms
proof (induction acts arbitrary: would)
  case Nil
  show ?case by simp
next
  case (Cons x acts)
  obtain p a where x: "x = (p, a)" by (cases x)
  from Cons.prems x obtain ps where ps: "map_of would (fst a) = Some ps"
    by (auto dest: weak_map_of_SomeI)
  let ?w1 = "AList.update (fst a) (ps @ [p]) would"
  have keys: "map fst ?w1 = map fst would"
    using ps by (auto simp: update_keys dest: map_of_SomeD intro: rev_image_eqI)
  then have "fst ` set ?w1 = fst ` set would"
    by (metis list.set_map)
  with Cons.prems have "list_all (\<lambda>x. fst (snd x) \<in> fst ` set ?w1) acts" by simp
  from Cons.IH [OF this] obtain would'
    where w': "group_actions acts ?w1 = Inr would'" "map fst would' = map fst ?w1"
      "\<forall>v. would_at would' v = would_at ?w1 v @ map fst (filter (\<lambda>x. fst (snd x) = v) acts)"
    by blast
  have "would_at ?w1 v = would_at would v @ (if fst a = v then [p] else [])" for v
    using ps by (auto simp: would_at_def update_conv')
  with w' keys x ps show ?case
    by (auto simp: would_append_def)
qed

lemma would_of_ok:
  assumes "verbs_ok acts"
  shows "\<exists>would. would_of acts = Inr would \<and> map fst would = verbs
           \<and> (\<forall>v. would_at would v = map fst (filter (\<lambda>x. fst (snd x) = v) (sort_key fst acts)))"
proof -
  have "list_all (\<lambda>x. fst (snd x) \<in> fst ` set would_empty) (sort_key fst acts)"
    using assms by (simp add: verbs_ok_def list_all_iff would_empty_def verbs_def)
  from group_actions_ok [OF this] obtain would
    where w: "group_actions (sort_key fst acts) would_empty = Inr would"
      "map fst would = map fst would_empty"
      "\<forall>v. would_at would v
           = would_at would_empty v @ map fst (filter (\<lambda>x. fst (snd x) = v) (sort_key fst acts))"
    by blast
  have "would_at would_empty v = []" for v
    by (simp add: would_at_def would_empty_def)
  with w show ?thesis
    by (simp add: would_of_def would_empty_def verbs_def)
qed

lemma fs_examine [simp]: "fs (examine cur_root new_root ps w) = fs w"
  unfolding examine_def by (induction ps arbitrary: w) simp_all

lemma fs_report_group [simp]: "fs (report_group g w) = fs w"
proof -
  have "fs (fold (\<lambda>item_path. print (f item_path)) ps w0) = fs w0"
    for f :: "string \<Rightarrow> string" and ps w0
    by (induction ps arbitrary: w0) simp_all
  then show ?thesis by (simp add: report_group_def Let_def)
qed

lemma stdin_report_group [simp]: "stdin (report_group g w) = stdin w"
proof -
  have "stdin (fold (\<lambda>item_path. print (f item_path)) ps w0) = stdin w0"
    for f :: "string \<Rightarrow> string" and ps w0
    by (induction ps arbitrary: w0) simp_all
  then show ?thesis by (simp add: report_group_def Let_def)
qed

lemma fs_report [simp]: "fs (fold report_group would w) = fs w"
  by (induction would arbitrary: w) simp_all

lemma stdin_report [simp]: "stdin (fold report_group would w) = stdin w"
  by (induction would arbitrary: w) simp_all

lemma last_trace_stderr [simp]: "last (trace (stderr s w)) = Stderr s"
  by (simp add: stderr_def)

lemma select_loop_skip:
  assumes keys: "set verbs \<subseteq> fst ` set would"
  shows "stdin w = pre @ ''n'' # rest \<Longrightarrow> ''y'' \<notin> set pre \<Longrightarrow> ''n'' \<notin> set pre \<Longrightarrow>
         \<exists>w'. select_loop cur_root new_root would w = (Inr (), w') \<and> fs w' = fs w \<and> stdin w' = rest
              \<and> last (trace w') = Stderr (''skipping '' @ new_root @ ''...'')"
proof (induction pre arbitrary: w rule: length_induct)
  case (1 pre)
  let ?valid = "[''d'', ''c'', ''a'', ''l'', ''y'', ''n'']"
  show ?case
  proof (cases "\<exists>x\<in>set pre. x \<in> set ?valid")
    case False
    have "stdin (stderr [] w) = pre @ ''n'' # rest" using "1.prems"(1) by simp
    from get_input_valid [OF this, of ?valid select_prompt] False
    obtain w1 where "get_input select_prompt ?valid (stderr [] w) = (Inr ''n'', w1)"
      "fs w1 = fs w" "stdin w1 = rest"
      by auto
    then show ?thesis
      by (simp add: select_loop.simps [of cur_root new_root would w])
  next
    case True
    from split_list_first_prop [OF True] obtain bad x pre'
      where sp: "pre = bad @ x # pre'" "x \<in> set ?valid" "\<forall>y\<in>set bad. y \<notin> set ?valid"
      by blast
    from sp "1.prems"(2,3) have x: "x \<noteq> ''y''" "x \<noteq> ''n''" by auto
    have "stdin (stderr [] w) = bad @ x # (pre' @ ''n'' # rest)"
      using "1.prems"(1) sp(1) by simp
    from get_input_valid [OF this sp(3,2), of select_prompt]
    obtain w1 where w1: "get_input select_prompt ?valid (stderr [] w) = (Inr x, w1)"
      "fs w1 = fs w" "stdin w1 = pre' @ ''n'' # rest"
      by auto
    from sp(2) x have "x = ''d'' \<or> x = ''c'' \<or> x = ''a'' \<or> x = ''l''" by simp
    then obtain verb
      where verb: "map_of [(''d'', ''delete''), (''c'', ''create''), (''a'', ''alter''),
                          (''l'', ''leave'')] x = Some verb" "verb \<in> set verbs"
      by (elim disjE) (simp_all add: verbs_def)
    from verb(2) keys have "verb \<in> fst ` set would" by blast
    then obtain ps where ps: "map_of would verb = Some ps"
      by (auto dest: weak_map_of_SomeI)
    have "length pre' < length pre" using sp(1) by simp
    moreover have "stdin (examine cur_root new_root ps w1) = pre' @ ''n'' # rest"
      using w1(3) by simp
    moreover have "''y'' \<notin> set pre'" "''n'' \<notin> set pre'"
      using "1.prems"(2,3) sp(1) by auto
    ultimately obtain w' where
      "select_loop cur_root new_root would (examine cur_root new_root ps w1) = (Inr (), w')"
      "fs w' = fs (examine cur_root new_root ps w1)" "stdin w' = rest"
      "last (trace w') = Stderr (''skipping '' @ new_root @ ''...'')"
      using "1.IH" by blast
    with w1 x verb(1) ps show ?thesis
      by (simp add: select_loop.simps [of cur_root new_root would w])
  qed
qed

section \<open>The dictionary of one level\<close>

lemma entry_name_entry_of [simp]: "entry_name (entry_of p e) = fst e"
  by (simp add: entry_of_def)

lemma find_entry_of:
  "find (\<lambda>e. entry_name e = nm) (map (entry_of p) es) = slot p es nm"
  by (induction es) (auto simp: slot_def)

lemma map_of_d_set:
  "map_of (d_set i e d) nm =
     (if nm = entry_name e
      then Some (if i = 0 then (Some e, snd (case map_of d nm of None \<Rightarrow> (None, None) | Some v \<Rightarrow> v))
                 else (fst (case map_of d nm of None \<Rightarrow> (None, None) | Some v \<Rightarrow> v), Some e))
      else map_of d nm)"
  by (simp add: d_set_def Let_def update_conv')

lemma distinct_d_set: "distinct (map fst d) \<Longrightarrow> distinct (map fst (d_set i e d))"
  by (simp add: d_set_def Let_def distinct_update)

lemma scan_entries_distinct:
  "distinct (map fst d) \<Longrightarrow> distinct (map fst (fst (scan_entries i p entries (d, w))))"
  by (induction entries arbitrary: d w) (simp_all add: distinct_d_set)

lemma scan_entries_map:
  assumes "distinct (map entry_name entries)"
  shows "map_of (fst (scan_entries i p entries (d, w))) nm =
     (case find (\<lambda>e. entry_name e = nm) entries of
        None \<Rightarrow> map_of d nm
      | Some e \<Rightarrow>
          if fnmatchcase nm ''.*.swp'' then map_of d nm
          else Some (if i = 0
                     then (Some e, snd (case map_of d nm of None \<Rightarrow> (None, None) | Some v \<Rightarrow> v))
                     else (fst (case map_of d nm of None \<Rightarrow> (None, None) | Some v \<Rightarrow> v), Some e)))"
  using assms
proof (induction entries arbitrary: d w)
  case Nil
  show ?case by simp
next
  case (Cons e entries)
  from Cons.prems have d: "distinct (map entry_name entries)"
    and fresh: "find (\<lambda>x. entry_name x = entry_name e) entries = None"
    by (auto simp: find_None_iff image_iff)
  show ?case
  proof (cases "entry_name e = nm")
    case True
    with fresh Cons.IH [OF d] show ?thesis
      by (auto simp: map_of_d_set)
  next
    case False
    with Cons.IH [OF d] show ?thesis
      by (auto simp: map_of_d_set split: option.splits)
  qed
qed

lemma scan_roots_dirs:
  assumes "distinct (map fst ces)" "distinct (map fst nes)"
  shows "\<exists>d w'. scan_roots cur_root new_root (Some (Dir ces)) (Some (Dir nes)) rel w = (Inr d, w')
           \<and> distinct (map fst d)
           \<and> map_of d = pairing_map (cur_root @ ''/'' @ rel) (new_root @ ''/'' @ rel) ces nes"
proof -
  let ?pc = "cur_root @ ''/'' @ rel" and ?pn = "new_root @ ''/'' @ rel"
  obtain d0 w0 where s0: "scan_entries 0 ?pc (map (entry_of ?pc) ces) ([], w) = (d0, w0)"
    by (cases "scan_entries 0 ?pc (map (entry_of ?pc) ces) ([], w)")
  obtain d1 w1 where s1: "scan_entries 1 ?pn (map (entry_of ?pn) nes) (d0, w0) = (d1, w1)"
    by (cases "scan_entries 1 ?pn (map (entry_of ?pn) nes) (d0, w0)")
  have dc: "distinct (map entry_name (map (entry_of ?pc) ces))"
    and dn: "distinct (map entry_name (map (entry_of ?pn) nes))"
    using assms by (simp_all add: comp_def)
  have m0: "map_of d0 nm = (if fnmatchcase nm ''.*.swp'' then None
                            else case slot ?pc ces nm of None \<Rightarrow> None | Some e \<Rightarrow> Some (Some e, None))"
    for nm
    using scan_entries_map [OF dc, of 0 ?pc "[]" w nm] s0
    by (simp add: find_entry_of split: option.splits)
  have m1: "map_of d1 nm = pairing_map ?pc ?pn ces nes nm" for nm
    using scan_entries_map [OF dn, of 1 ?pn d0 w0 nm] s1 m0 [of nm]
    by (auto simp: find_entry_of pairing_map_def slot_def split: option.splits)
  have "distinct (map fst d0)"
    using scan_entries_distinct [of "[]" 0 ?pc "map (entry_of ?pc) ces" w] s0 by simp
  then have "distinct (map fst d1)"
    using scan_entries_distinct [of d0 1 ?pn "map (entry_of ?pn) nes" w0] s1 by simp
  with s0 s1 m1 show ?thesis
    by (auto simp: scan_roots_def scandir_def)
qed

lemma sort_key_unique:
  assumes "distinct (map fst xs)" "distinct (map fst ys)" "map_of xs = map_of ys"
  shows "sort_key fst xs = sort_key fst (ys :: (string \<times> 'a) list)"
proof -
  have set: "set xs = set ys"
    using assms by (metis map_of_inject_set)
  have "map fst (sort_key fst xs) = map fst (sort_key fst ys)"
  proof (rule sorted_distinct_set_unique)
    show "sorted (map fst (sort_key fst xs))" "sorted (map fst (sort_key fst ys))"
      by (rule sorted_sort_key)+
    show "distinct (map fst (sort_key fst xs))"
      using assms(1) by (metis distinct_map distinct_sort set_sort)
    show "distinct (map fst (sort_key fst ys))"
      using assms(2) by (metis distinct_map distinct_sort set_sort)
    show "set (map fst (sort_key fst xs)) = set (map fst (sort_key fst ys))"
      using set by simp
  qed
  moreover have "inj_on fst (set (sort_key fst xs) \<union> set (sort_key fst ys))"
    using assms(1) set by (simp add: distinct_map)
  ultimately show ?thesis
    by (rule map_inj_on)
qed


section \<open>The same tree in another order\<close>

lemma same_tree_cases:
  assumes "same_tree x y"
  obtains (Dir) es es' where "x = Dir es" "y = Dir es'"
    | (Lnk) t t' where "x = Lnk (Some t)" "y = Lnk (Some t')" "same_tree t t'"
    | (Leaf) "x = y" "x = Lnk None \<or> x = Special \<or> (\<exists>b. x = Reg b)"
proof (cases x)
  case (Dir es)
  with assms that(1) show ?thesis by (cases y) auto
next
  case (Lnk t)
  show ?thesis
  proof (cases t)
    case None
    with Lnk assms that(3) show ?thesis by auto
  next
    case (Some u)
    with Lnk assms that(2) show ?thesis by (cases y) (auto split: option.splits)
  qed
next
  case (Reg b)
  with assms that(3) show ?thesis by auto
next
  case Special
  with assms that(3) show ?thesis by auto
qed

lemma same_tree_leaf:
  "same_tree x y \<Longrightarrow> is_regular x = is_regular y"
  by (erule same_tree_cases) (auto simp: is_regular_def)

lemma same_tree_follow: "same_tree x y \<Longrightarrow> rel_option same_tree (follow x) (follow y)"
proof (induction x arbitrary: y rule: follow.induct)
  case (2 t)
  then show ?case by (cases y) (auto split: option.splits)
qed (auto split: node.splits)

lemma same_tree_map_of:
  assumes "same_tree (Dir es) (Dir es')"
  shows "rel_option same_tree (map_of es nm) (map_of es' nm)"
proof (cases "map_of es nm")
  case None
  then have "nm \<notin> set (map fst es')"
    using assms by (simp add: map_of_eq_None_iff)
  then have "map_of es' nm = None" by (simp add: map_of_eq_None_iff)
  with None show ?thesis by simp
next
  case (Some x)
  then have "(nm, x) \<in> set es" by (rule map_of_SomeD)
  with assms obtain y where "map_of es' nm = Some y" "same_tree x y"
    by (auto simp: list_all_iff split: option.splits)
  with Some show ?thesis by simp
qed

lemma child_link [simp]: "child (Some (Lnk t)) nm = None"
  by (simp add: child_def)

lemma same_tree_child:
  assumes "rel_option same_tree c c'"
  shows "rel_option same_tree (child c nm) (child c' nm)"
proof (cases c)
  case None
  with assms show ?thesis by (simp add: child_def)
next
  case (Some x)
  with assms obtain y where y: "c' = Some y" "same_tree x y"
    by (cases c') auto
  from y(2) show ?thesis
  proof (cases rule: same_tree_cases)
    case (Dir es es')
    from same_tree_map_of [of es es' nm] y(2) Dir
    have "rel_option same_tree (map_of es nm) (map_of es' nm)" by simp
    then show ?thesis
      using Some y(1) Dir
      by (cases "map_of es nm"; cases "map_of es' nm") (auto simp: child_def same_tree_follow)
  next
    case (Lnk t t')
    with Some y(1) show ?thesis by simp
  next
    case Leaf
    with Some y(1) show ?thesis by (auto simp: child_def)
  qed
qed

lemma same_tree_is_dir:
  assumes "same_tree x y"
  shows "(case follow x of Some (Dir es) \<Rightarrow> True | _ \<Rightarrow> False)
       = (case follow y of Some (Dir es) \<Rightarrow> True | _ \<Rightarrow> False)"
proof (cases "follow x")
  case None
  with same_tree_follow [OF assms] show ?thesis by (cases "follow y") auto
next
  case (Some a)
  with same_tree_follow [OF assms] obtain b where b: "follow y = Some b" "same_tree a b"
    by (cases "follow y") auto
  from b(2) have "is_directory a = is_directory b"
    by (cases rule: same_tree_cases) (auto simp: is_directory_def)
  with Some b(1) show ?thesis by (simp add: is_directory_def)
qed

lemma same_tree_entry_of:
  assumes "same_tree x y"
  shows "entry_of p (nm, x) = entry_of p (nm, y)"
  using same_tree_is_dir [OF assms] same_tree_leaf [OF assms]
  by (simp add: entry_of_def)

lemma same_tree_pairing:
  assumes "same_tree (Dir ces) (Dir ces')" "same_tree (Dir nes) (Dir nes')"
  shows "pairing_map pc pn ces nes = pairing_map pc pn ces' nes'"
proof
  fix nm
  have "slot p es nm = slot p es' nm \<and> (map_of es nm = None) = (map_of es' nm = None)"
    if "same_tree (Dir es) (Dir es')" for p es es'
    using same_tree_map_of [OF that, of nm]
    by (cases "map_of es nm"; cases "map_of es' nm") (auto simp: slot_def same_tree_entry_of)
  from this [OF assms(1)] this [OF assms(2)]
  show "pairing_map pc pn ces nes nm = pairing_map pc pn ces' nes' nm"
    by (simp add: pairing_map_def)
qed

lemma same_tree_Reg: "same_tree x y \<Longrightarrow> (\<exists>b. x = Reg b \<and> y = Reg b) \<or> (\<not> is_regular x \<and> \<not> is_regular y)"
  by (erule same_tree_cases) (auto simp: is_regular_def)

lemma filecmp_cmp_alt:
  "filecmp_cmp (Some x) (Some y) =
     (if is_regular x \<and> is_regular y then Inr (x = y) else Inr False)"
  by (auto simp: filecmp_cmp_def is_regular_def split: node.splits)

lemma same_tree_filecmp:
  assumes "rel_option same_tree a a'" "rel_option same_tree b b'"
  shows "filecmp_cmp a b = filecmp_cmp a' b'"
proof (cases a)
  case None
  with assms(1) show ?thesis by (simp add: filecmp_cmp_def)
next
  case (Some x)
  with assms(1) obtain x' where x': "a' = Some x'" "same_tree x x'" by (cases a') auto
  show ?thesis
  proof (cases b)
    case None
    with assms(2) Some x' show ?thesis by (simp add: filecmp_cmp_def split: node.splits)
  next
    case bs: (Some y)
    with assms(2) obtain y' where y': "b' = Some y'" "same_tree y y'" by (cases b') auto
    from same_tree_Reg [OF x'(2)] same_tree_Reg [OF y'(2)] Some x'(1) bs y'(1) show ?thesis
      by (auto simp: filecmp_cmp_alt is_regular_def)
  qed
qed


lemma same_tree_walk:
  "same_tree x y \<Longrightarrow> rel_option same_tree (walk x cs) (walk y cs)"
proof (induction cs arbitrary: x y)
  case Nil
  then show ?case by simp
next
  case (Cons c cs)
  from same_tree_follow [OF Cons.prems] show ?case
  proof (cases "follow x")
    case None
    with same_tree_follow [OF Cons.prems] have "follow y = None" by (cases "follow y") auto
    with None show ?thesis by simp
  next
    case (Some a)
    with same_tree_follow [OF Cons.prems] obtain b where b: "follow y = Some b" "same_tree a b"
      by (cases "follow y") auto
    from b(2) show ?thesis
    proof (cases rule: same_tree_cases)
      case (Dir es es')
      show ?thesis
      proof (cases "stays c")
        case True
        with Cons.IH [of "Dir es" "Dir es'"] b(2) Dir Some b(1) show ?thesis by simp
      next
        case False
        from same_tree_map_of [of es es' c] b(2) Dir
        have m: "rel_option same_tree (map_of es c) (map_of es' c)" by simp
        show ?thesis
        proof (cases "map_of es c")
          case None
          with m have "map_of es' c = None" by (cases "map_of es' c") auto
          with None False Dir Some b(1) show ?thesis by simp
        next
          case sm: (Some u)
          with m obtain v where v: "map_of es' c = Some v" "same_tree u v"
            by (cases "map_of es' c") auto
          with Cons.IH [OF v(2)] sm False Dir Some b(1) show ?thesis by simp
        qed
      qed
    next
      case (Lnk t t')
      with Some b(1) follow_not_link [OF Some] show ?thesis by (simp add: is_link_def)
    next
      case Leaf
      with Some b(1) show ?thesis by auto
    qed
  qed
qed

lemma same_tree_stat:
  assumes "same_tree x y"
  shows "rel_option same_tree (os_stat x p) (os_stat y p)"
proof (cases "p = []")
  case True
  then show ?thesis by (simp add: os_stat_def os_lstat_def)
next
  case False
  from same_tree_walk [OF assms, of "components p"] show ?thesis
    using False
    by (cases "walk x (components p)"; cases "walk y (components p)")
       (auto simp: os_stat_def os_lstat_def same_tree_follow)
qed

lemma scandir_cases:
  "scandir x p = (case x of Some (Dir es) \<Rightarrow> Inr (map (entry_of p) es) | _ \<Rightarrow> Inl OSError)"
  by (simp add: scandir_def)

lemma scandir_error: "scandir x p = Inl e \<Longrightarrow> e = OSError"
  by (auto simp: scandir_def split: option.splits node.splits)

lemma scan_roots_fails:
  assumes "(\<forall>es. c \<noteq> Some (Dir es)) \<or> (\<forall>es. n \<noteq> Some (Dir es))"
  shows "fst (scan_roots cur_root new_root c n rel w) = Inl OSError"
proof -
  have "scandir x p = Inl OSError" if "\<forall>es. x \<noteq> Some (Dir es)" for x p
    using that by (auto simp: scandir_def split: option.splits node.splits)
  with assms show ?thesis
    by (auto simp: scan_roots_def split: sum.splits prod.splits dest: scandir_error)
qed

lemma same_tree_Dir: "same_tree (Dir es) y \<Longrightarrow> \<exists>es'. y = Dir es'"
  by (cases y) auto

lemma same_tree_is_Dir:
  "rel_option same_tree c c' \<Longrightarrow> (\<exists>es. c = Some (Dir es)) = (\<exists>es. c' = Some (Dir es))"
  by (cases c; cases c') (auto elim: same_tree_cases)

lemma order_irrelevant:
  "rel_option same_tree c c' \<Longrightarrow> rel_option same_tree n n' \<Longrightarrow>
     fst (recurse_on_rel_path cur_root new_root c n rel acts w)
   = fst (recurse_on_rel_path cur_root new_root c' n' rel acts w2)"
  "rel_option same_tree c c' \<Longrightarrow> rel_option same_tree n n' \<Longrightarrow>
     fst (for_items cur_root new_root c n rel items acts w)
   = fst (for_items cur_root new_root c' n' rel items acts w2)"
proof (induction cur_root new_root c n rel acts w and cur_root new_root c n rel items acts w
       arbitrary: c' n' w2 and c' n' w2 rule: recurse_on_rel_path_for_items.induct)
  case (1 cur_root new_root c n dir_rel_path acts w)
  show ?case
  proof (cases "(\<exists>es. c = Some (Dir es)) \<and> (\<exists>es. n = Some (Dir es))")
    case False
    then have "(\<forall>es. c \<noteq> Some (Dir es)) \<or> (\<forall>es. n \<noteq> Some (Dir es))" by blast
    moreover from False same_tree_is_Dir [OF "1.prems"(1)] same_tree_is_Dir [OF "1.prems"(2)]
    have "(\<forall>es. c' \<noteq> Some (Dir es)) \<or> (\<forall>es. n' \<noteq> Some (Dir es))" by blast
    ultimately have "fst (scan_roots cur_root new_root c n dir_rel_path w) = Inl OSError"
      "fst (scan_roots cur_root new_root c' n' dir_rel_path w2) = Inl OSError"
      by (simp_all add: scan_roots_fails)
    then show ?thesis
      by (auto simp: recurse_on_rel_path.simps split: prod.splits sum.splits)
  next
    case True
    then obtain ces nes where cn: "c = Some (Dir ces)" "n = Some (Dir nes)" by blast
    from "1.prems"(1) cn(1) obtain y where y: "c' = Some y" "same_tree (Dir ces) y"
      by (cases c') (auto simp del: same_tree.simps)
    from "1.prems"(2) cn(2) obtain z where z: "n' = Some z" "same_tree (Dir nes) z"
      by (cases n') (auto simp del: same_tree.simps)
    from y z obtain ces' nes' where cn': "c' = Some (Dir ces')" "n' = Some (Dir nes')"
      and st: "same_tree (Dir ces) (Dir ces')" "same_tree (Dir nes) (Dir nes')"
      using same_tree_Dir [OF y(2)] same_tree_Dir [OF z(2)] by blast
    from st have dist: "distinct (map fst ces)" "distinct (map fst nes)"
      "distinct (map fst ces')" "distinct (map fst nes')"
      by simp_all
    from scan_roots_dirs [OF dist(1,2), of cur_root new_root dir_rel_path w] obtain d w1
      where d: "scan_roots cur_root new_root c n dir_rel_path w = (Inr d, w1)"
        "distinct (map fst d)"
        "map_of d = pairing_map (cur_root @ ''/'' @ dir_rel_path) (new_root @ ''/'' @ dir_rel_path) ces nes"
      using cn by blast
    from scan_roots_dirs [OF dist(3,4), of cur_root new_root dir_rel_path w2] obtain d' w1'
      where d': "scan_roots cur_root new_root c' n' dir_rel_path w2 = (Inr d', w1')"
        "distinct (map fst d')"
        "map_of d' = pairing_map (cur_root @ ''/'' @ dir_rel_path) (new_root @ ''/'' @ dir_rel_path) ces' nes'"
      using cn' by blast
    have "map_of d = map_of d'"
      using d(3) d'(3) same_tree_pairing [OF st] by simp
    from sort_key_unique [OF d(2) d'(2) this] have items: "sort_key fst d' = sort_key fst d"
      by simp
    from "1.IH" [OF d(1) [symmetric] refl "1.prems", of w1'] d(1) d'(1) items
    show ?thesis
      by (simp add: recurse_on_rel_path.simps)
  qed
next
  case (2 cur_root new_root c n dir_rel_path acts w)
  show ?case by simp
next
  case (3 cur_root new_root c n dir_rel_path item_name items acts w)
  show ?case by simp
next
  case (4 cur_root new_root c n dir_rel_path item_name ce items acts w)
  from "4.IH" [OF "4.prems"] show ?case by simp
next
  case (5 cur_root new_root c n dir_rel_path item_name ne items acts w)
  from "5.IH" [OF "5.prems"] show ?case by simp
next
  case (6 cur_root new_root c n dir_rel_path item_name ce ne items acts w)
  have cmp: "filecmp_cmp (child c item_name) (child n item_name)
           = filecmp_cmp (child c' item_name) (child n' item_name)"
    using "6.prems" by (intro same_tree_filecmp same_tree_child)
  show ?case
  proof (cases "is_file_nofollow ce \<and> is_file_nofollow ne")
    case True
    show ?thesis
    proof (cases "filecmp_cmp (child c item_name) (child n item_name)")
      case (Inl e)
      moreover from Inl cmp have "filecmp_cmp (child c' item_name) (child n' item_name) = Inl e"
        by simp
      ultimately show ?thesis using True by simp
    next
      case (Inr same)
      moreover from Inr cmp have "filecmp_cmp (child c' item_name) (child n' item_name) = Inr same"
        by simp
      ultimately show ?thesis using "6.IH"(1) [OF True Inr "6.prems", of w2] True by simp
    qed
  next
    case False
    show ?thesis
    proof (cases "is_dir ce \<and> is_dir ne")
      case dirs: True
      have ch: "rel_option same_tree (child c item_name) (child c' item_name)"
        "rel_option same_tree (child n item_name) (child n' item_name)"
        using "6.prems" by (simp_all add: same_tree_child)
      show ?thesis
      proof (cases "child c item_name")
        case None
        with ch(1) have "child c' item_name = None" by (cases "child c' item_name") auto
        with None False dirs show ?thesis by auto
      next
        case (Some cd)
        with ch(1) obtain cd' where cd': "child c' item_name = Some cd'" "same_tree cd cd'"
          by (cases "child c' item_name") auto
        obtain r w1 where rec: "recurse_on_rel_path cur_root new_root (Some cd) (child n item_name)
            (dir_rel_path @ ''/'' @ item_name) acts w = (r, w1)"
          by (cases "recurse_on_rel_path cur_root new_root (Some cd) (child n item_name)
            (dir_rel_path @ ''/'' @ item_name) acts w") auto
        obtain r' w1' where rec': "recurse_on_rel_path cur_root new_root (Some cd')
            (child n' item_name) (dir_rel_path @ ''/'' @ item_name) acts w2 = (r', w1')"
          by (cases "recurse_on_rel_path cur_root new_root (Some cd') (child n' item_name)
            (dir_rel_path @ ''/'' @ item_name) acts w2") auto
        have "r = r'"
          using "6.IH"(2) [OF False dirs Some, of "Some cd'" "child n' item_name" w2] cd'(2) ch(2)
            rec rec'
          by simp
        show ?thesis
        proof (cases r)
          case (Inl e)
          with False dirs Some cd'(1) rec rec' \<open>r = r'\<close> show ?thesis by auto
        next
          case (Inr acts')
          with "6.IH"(3) [OF False dirs Some rec [symmetric] Inr "6.prems", of w1']
            False dirs Some cd'(1) rec rec' \<open>r = r'\<close>
          show ?thesis by auto
        qed
      qed
    next
      case False
      with \<open>\<not> (is_file_nofollow ce \<and> is_file_nofollow ne)\<close> show ?thesis by auto
    qed
  qed
qed

section \<open>Swap files\<close>

lemma clean_path_extend:
  "clean_path p \<Longrightarrow> CHR ''/'' \<notin> set nm \<Longrightarrow> \<not> fnmatchcase nm ''.*.swp''
     \<Longrightarrow> clean_path (p @ ''/'' @ nm)"
  using components_slash [of nm p] by (simp add: clean_path_def)

lemma wf_follow: "wf_node x \<Longrightarrow> follow x = Some y \<Longrightarrow> wf_node y"
  by (induction x rule: follow.induct) auto

lemma wf_child: "wf_opt c \<Longrightarrow> wf_opt (child c nm)"
proof (cases c)
  case None
  then show ?thesis by (simp add: child_def wf_opt_def)
next
  case (Some x)
  assume "wf_opt c"
  with Some have wf: "wf_node x" by (simp add: wf_opt_def)
  show ?thesis
  proof (cases x)
    case (Dir es)
    show ?thesis
    proof (cases "map_of es nm")
      case None
      with Some Dir show ?thesis by (simp add: child_def wf_opt_def)
    next
      case s: (Some m)
      then have "(nm, m) \<in> set es" by (rule map_of_SomeD)
      with wf Dir have "wf_node m" by (auto simp: list_all_iff)
      with Some Dir s show ?thesis
        by (auto simp: child_def wf_opt_def split: option.splits dest: wf_follow)
    qed
  qed (use Some in \<open>simp_all add: child_def wf_opt_def\<close>)
qed

lemma in_sorted_pairing:
  assumes "distinct (map fst d)" "it \<in> set (sort_key fst d)"
  shows "map_of d (fst it) = Some (snd it)"
  using assms by (cases it) simp

lemma pairing_items_ok:
  assumes wf: "wf_node (Dir ces)" "wf_node (Dir nes)"
    and d: "distinct (map fst d)" "map_of d = pairing_map pc pn ces nes"
  shows "items_ok (sort_key fst d)"
proof -
  { fix it assume "it \<in> set (sort_key fst d)"
    from in_sorted_pairing [OF d(1) this] d(2)
    have pm: "pairing_map pc pn ces nes (fst it) = Some (snd it)" by simp
    then have ns: "\<not> fnmatchcase (fst it) ''.*.swp''"
      and slots: "snd it = (slot pc ces (fst it), slot pn nes (fst it))"
      and some: "map_of ces (fst it) \<noteq> None \<or> map_of nes (fst it) \<noteq> None"
      by (auto simp: pairing_map_def split: if_splits)
    from some wf have "valid_name (fst it)"
      by (auto simp: list_all_iff dest!: map_of_SomeD)
    then have "CHR ''/'' \<notin> set (fst it)" by (simp add: valid_name_def)
    with ns slots have "\<not> fnmatchcase (fst it) ''.*.swp'' \<and> CHR ''/'' \<notin> set (fst it)
        \<and> (case fst (snd it) of None \<Rightarrow> True | Some e \<Rightarrow> entry_name e = fst it)
        \<and> (case snd (snd it) of None \<Rightarrow> True | Some e \<Rightarrow> entry_name e = fst it)"
      by (auto simp: slot_def split: option.splits) }
  then show ?thesis by (simp add: items_ok_def list_all_iff)
qed

lemma swap_free_update:
  assumes "swap_free acts" "clean_path k"
    "list_all (\<lambda>e. \<not> fnmatchcase (entry_name e) ''.*.swp'') entries"
  shows "swap_free (AList.update k (verb, entries) acts)"
  using assms by (auto simp: swap_free_def list_all_iff dest!: set_update_cases)

lemma traversal_swap_free:
  "wf_opt c \<Longrightarrow> wf_opt n \<Longrightarrow> clean_path rel \<Longrightarrow> swap_free acts
     \<Longrightarrow> holds_after swap_free (recurse_on_rel_path cur_root new_root c n rel acts w)"
  "wf_opt c \<Longrightarrow> wf_opt n \<Longrightarrow> clean_path rel \<Longrightarrow> swap_free acts \<Longrightarrow> items_ok items
     \<Longrightarrow> holds_after swap_free (for_items cur_root new_root c n rel items acts w)"
proof (induction cur_root new_root c n rel acts w and cur_root new_root c n rel items acts w
       rule: recurse_on_rel_path_for_items.induct)
  case (1 cur_root new_root c n dir_rel_path acts w)
  show ?case
  proof (cases "(\<exists>es. c = Some (Dir es)) \<and> (\<exists>es. n = Some (Dir es))")
    case False
    then have "fst (scan_roots cur_root new_root c n dir_rel_path w) = Inl OSError"
      by (intro scan_roots_fails) blast
    then show ?thesis
      by (auto simp: recurse_on_rel_path.simps split: prod.splits sum.splits)
  next
    case True
    then obtain ces nes where cn: "c = Some (Dir ces)" "n = Some (Dir nes)" by blast
    with "1.prems"(1,2) have wf: "wf_node (Dir ces)" "wf_node (Dir nes)"
      by (simp_all add: wf_opt_def)
    then have dist: "distinct (map fst ces)" "distinct (map fst nes)" by simp_all
    from scan_roots_dirs [OF dist, of cur_root new_root dir_rel_path w] obtain d w1
      where d: "scan_roots cur_root new_root c n dir_rel_path w = (Inr d, w1)"
        "distinct (map fst d)"
        "map_of d = pairing_map (cur_root @ ''/'' @ dir_rel_path) (new_root @ ''/'' @ dir_rel_path) ces nes"
      using cn by blast
    from pairing_items_ok [OF wf d(2,3)] have "items_ok (sort_key fst d)" .
    from "1.IH" [OF d(1) [symmetric] refl "1.prems" this] d(1) show ?thesis
      by (simp add: recurse_on_rel_path.simps)
  qed
next
  case (2 cur_root new_root c n dir_rel_path acts w)
  then show ?case by simp
next
  case (3 cur_root new_root c n dir_rel_path item_name items acts w)
  show ?case by simp
next
  case (4 cur_root new_root c n dir_rel_path item_name ce items acts w)
  from "4.prems"(5) have it: "\<not> fnmatchcase item_name ''.*.swp''" "CHR ''/'' \<notin> set item_name"
    "entry_name ce = item_name" "items_ok items"
    by (simp_all add: items_ok_def)
  have "swap_free (AList.update (dir_rel_path @ ''/'' @ item_name) (''delete'', [ce]) acts)"
    using "4.prems"(3,4) it by (intro swap_free_update clean_path_extend) simp_all
  from "4.IH" [OF "4.prems"(1,2,3) this it(4)] show ?case by simp
next
  case (5 cur_root new_root c n dir_rel_path item_name ne items acts w)
  from "5.prems"(5) have it: "\<not> fnmatchcase item_name ''.*.swp''" "CHR ''/'' \<notin> set item_name"
    "entry_name ne = item_name" "items_ok items"
    by (simp_all add: items_ok_def)
  have "swap_free (AList.update (dir_rel_path @ ''/'' @ item_name) (''create'', [ne]) acts)"
    using "5.prems"(3,4) it by (intro swap_free_update clean_path_extend) simp_all
  from "5.IH" [OF "5.prems"(1,2,3) this it(4)] show ?case by simp
next
  case (6 cur_root new_root c n dir_rel_path item_name ce ne items acts w)
  from "6.prems"(5) have it: "\<not> fnmatchcase item_name ''.*.swp''" "CHR ''/'' \<notin> set item_name"
    "entry_name ce = item_name" "entry_name ne = item_name" "items_ok items"
    by (simp_all add: items_ok_def)
  have cl: "clean_path (dir_rel_path @ ''/'' @ item_name)"
    using "6.prems"(3) it by (intro clean_path_extend)
  show ?case
  proof (cases "is_file_nofollow ce \<and> is_file_nofollow ne")
    case True
    show ?thesis
    proof (cases "filecmp_cmp (child c item_name) (child n item_name)")
      case (Inl e)
      with True show ?thesis by simp
    next
      case (Inr same)
      have "swap_free (AList.update (dir_rel_path @ ''/'' @ item_name)
                 (if same then ''leave'' else ''alter'', [ce, ne]) acts)"
        using "6.prems"(4) it cl by (intro swap_free_update) simp_all
      then have "swap_free (AList.update (dir_rel_path @ ''/'' @ item_name)
                 (if same then (''leave'', [ce, ne]) else (''alter'', [ce, ne])) acts)"
        by (simp split: if_splits)
      from "6.IH"(1) [OF True Inr "6.prems"(1,2,3) this it(5)] True Inr show ?thesis by simp
    qed
  next
    case False
    show ?thesis
    proof (cases "is_dir ce \<and> is_dir ne")
      case dirs: True
      show ?thesis
      proof (cases "child c item_name")
        case None
        with False dirs show ?thesis by auto
      next
        case (Some cd)
        have wfc: "wf_opt (Some cd)" "wf_opt (child n item_name)"
          using wf_child [OF "6.prems"(1), of item_name] wf_child [OF "6.prems"(2), of item_name]
            Some by simp_all
        obtain r w1 where rec: "recurse_on_rel_path cur_root new_root (Some cd) (child n item_name)
            (dir_rel_path @ ''/'' @ item_name) acts w = (r, w1)"
          by (cases "recurse_on_rel_path cur_root new_root (Some cd) (child n item_name)
            (dir_rel_path @ ''/'' @ item_name) acts w") auto
        have q: "holds_after swap_free (r, w1)"
          using "6.IH"(2) [OF False dirs Some wfc cl "6.prems"(4)] rec by simp
        show ?thesis
        proof (cases r)
          case (Inl e)
          with False dirs Some rec show ?thesis by auto
        next
          case (Inr acts')
          with q have "swap_free acts'" by simp
          from "6.IH"(3) [OF False dirs Some rec [symmetric] Inr "6.prems"(1,2,3) this it(5)]
            Inr False dirs Some rec
          show ?thesis by auto
        qed
      qed
    next
      case False
      with \<open>\<not> (is_file_nofollow ce \<and> is_file_nofollow ne)\<close> show ?thesis by auto
    qed
  qed
qed

lemma quiet_trace_mono: "extends_quietly w w' \<Longrightarrow> set (trace w) \<subseteq> set (trace w')"
  by (auto simp: extends_quietly_iff)

lemma scan_entries_logs:
  assumes "e \<in> set entries" "fnmatchcase (entry_name e) ''.*.swp''"
  shows "Stderr (''ignoring: '' @ p @ ''/'' @ entry_name e)
           \<in> set (trace (snd (scan_entries i p entries (d, w))))"
  using assms
proof (induction entries arbitrary: d w)
  case Nil
  then show ?case by simp
next
  case (Cons x entries)
  show ?case
  proof (cases "x = e")
    case True
    let ?w1 = "stderr (''ignoring: '' @ p @ ''/'' @ entry_name e) w"
    have "Stderr (''ignoring: '' @ p @ ''/'' @ entry_name e) \<in> set (trace ?w1)"
      by (simp add: stderr_def)
    moreover have "set (trace ?w1) \<subseteq> set (trace (snd (scan_entries i p entries (d, ?w1))))"
      by (rule quiet_trace_mono [OF scan_entries_quiet])
    ultimately show ?thesis using True Cons.prems(2) by auto
  next
    case False
    with Cons.prems have "e \<in> set entries" by simp
    from Cons.IH [OF this Cons.prems(2)] show ?thesis by simp
  qed
qed

lemma scan_roots_logs:
  assumes "scan_roots cur_root new_root (Some (Dir ces)) (Some (Dir nes)) rel w = (r, w1)"
  shows "\<forall>e\<in>set ces. fnmatchcase (fst e) ''.*.swp''
           \<longrightarrow> Stderr (''ignoring: '' @ (cur_root @ ''/'' @ rel) @ ''/'' @ fst e) \<in> set (trace w1)"
    and "\<forall>e\<in>set nes. fnmatchcase (fst e) ''.*.swp''
           \<longrightarrow> Stderr (''ignoring: '' @ (new_root @ ''/'' @ rel) @ ''/'' @ fst e) \<in> set (trace w1)"
proof -
  let ?pc = "cur_root @ ''/'' @ rel" and ?pn = "new_root @ ''/'' @ rel"
  obtain d0 w0 where s0: "scan_entries 0 ?pc (map (entry_of ?pc) ces) ([], w) = (d0, w0)"
    by (cases "scan_entries 0 ?pc (map (entry_of ?pc) ces) ([], w)")
  obtain d1 w1' where s1: "scan_entries 1 ?pn (map (entry_of ?pn) nes) (d0, w0) = (d1, w1')"
    by (cases "scan_entries 1 ?pn (map (entry_of ?pn) nes) (d0, w0)")
  from assms s0 s1 have w1: "w1 = w1'"
    by (simp add: scan_roots_def scandir_def)
  have mono: "set (trace w0) \<subseteq> set (trace w1')"
    using quiet_trace_mono [OF scan_entries_quiet [of w0 1 ?pn "map (entry_of ?pn) nes" d0]] s1
    by simp
  { fix e assume e: "e \<in> set ces" "fnmatchcase (fst e) ''.*.swp''"
    from scan_entries_logs [of "entry_of ?pc e" "map (entry_of ?pc) ces" ?pc 0 "[]" w] e s0
    have "Stderr (''ignoring: '' @ ?pc @ ''/'' @ fst e) \<in> set (trace w0)" by simp
    with mono have "Stderr (''ignoring: '' @ ?pc @ ''/'' @ fst e) \<in> set (trace w1')" by blast }
  with w1 show "\<forall>e\<in>set ces. fnmatchcase (fst e) ''.*.swp''
           \<longrightarrow> Stderr (''ignoring: '' @ ?pc @ ''/'' @ fst e) \<in> set (trace w1)"
    by blast
  { fix e assume e: "e \<in> set nes" "fnmatchcase (fst e) ''.*.swp''"
    from scan_entries_logs [of "entry_of ?pn e" "map (entry_of ?pn) nes" ?pn 1 d0 w0] e s1
    have "Stderr (''ignoring: '' @ ?pn @ ''/'' @ fst e) \<in> set (trace w1')" by simp }
  with w1 show "\<forall>e\<in>set nes. fnmatchcase (fst e) ''.*.swp''
           \<longrightarrow> Stderr (''ignoring: '' @ ?pn @ ''/'' @ fst e) \<in> set (trace w1)"
    by blast
qed

lemma group_actions_subset:
  "group_actions acts would = Inr would'
     \<Longrightarrow> set (would_at would' v) \<subseteq> set (would_at would v) \<union> fst ` set acts"
proof (induction acts arbitrary: would)
  case Nil
  then show ?case by simp
next
  case (Cons x acts)
  obtain p a where x: "x = (p, a)" by (cases x)
  from Cons.prems x obtain ps where ps: "map_of would (fst a) = Some ps"
    and rest: "group_actions acts (AList.update (fst a) (ps @ [p]) would) = Inr would'"
    by (auto simp: would_append_def split: option.splits)
  have "set (would_at (AList.update (fst a) (ps @ [p]) would) v) \<subseteq> set (would_at would v) \<union> {p}"
    using ps by (auto simp: would_at_def update_conv')
  with Cons.IH [OF rest] x show ?case by auto
qed

lemma would_of_subset:
  assumes "would_of acts = Inr would"
  shows "set (would_at would v) \<subseteq> fst ` set acts"
proof -
  have "would_at would_empty v = []" by (simp add: would_at_def would_empty_def)
  with group_actions_subset [of "sort_key fst acts" would_empty would v] assms
  show ?thesis by (simp add: would_of_def)
qed

section \<open>A change of type below the roots\<close>

lemma mismatch_iff:
  assumes "distinct (map fst ces)"
  shows "mismatch ces nes \<longleftrightarrow> (\<exists>nm. \<not> fnmatchcase nm ''.*.swp'' \<and> item_mismatch ces nes nm)"
proof
  assume "mismatch ces nes"
  then obtain e where e: "e \<in> set ces" "\<not> fnmatchcase (fst e) ''.*.swp''"
    "case map_of nes (fst e) of None \<Rightarrow> False
     | Some y \<Rightarrow> \<not> (is_regular (snd e) \<and> is_regular y)
        \<and> (case dir_of (snd e) of None \<Rightarrow> True
            | Some a \<Rightarrow> (case dir_of y of None \<Rightarrow> True | Some b \<Rightarrow> mismatch a b))"
    by (auto simp: mismatch.simps [of ces nes] list_ex_iff)
  from e(1) assms have "map_of ces (fst e) = Some (snd e)" by simp
  with e(3) have "item_mismatch ces nes (fst e)" by (simp add: item_mismatch_def)
  with e(2) show "\<exists>nm. \<not> fnmatchcase nm ''.*.swp'' \<and> item_mismatch ces nes nm" by blast
next
  assume "\<exists>nm. \<not> fnmatchcase nm ''.*.swp'' \<and> item_mismatch ces nes nm"
  then obtain nm where nm: "\<not> fnmatchcase nm ''.*.swp''" "item_mismatch ces nes nm" by blast
  then obtain x where x: "map_of ces nm = Some x"
    by (cases "map_of ces nm") (simp_all add: item_mismatch_def)
  with nm(2) have c: "case map_of nes nm of None \<Rightarrow> False
     | Some y \<Rightarrow> \<not> (is_regular x \<and> is_regular y)
        \<and> (case dir_of x of None \<Rightarrow> True
            | Some a \<Rightarrow> (case dir_of y of None \<Rightarrow> True | Some b \<Rightarrow> mismatch a b))"
    by (simp add: item_mismatch_def)
  from x have "(nm, x) \<in> set ces" by (rule map_of_SomeD)
  with nm(1) c show "mismatch ces nes"
    unfolding mismatch.simps [of ces nes] list_ex_iff
    by (intro bexI [of _ "(nm, x)"]) (auto split: option.splits)
qed

lemma wf_dir_of: "wf_node x \<Longrightarrow> dir_of x = Some a \<Longrightarrow> wf_node (Dir a)"
  by (auto simp: dir_of_def split: option.splits node.splits dest: wf_follow)

lemma wf_entry: "wf_node (Dir es) \<Longrightarrow> map_of es nm = Some x \<Longrightarrow> wf_node x"
  by (auto simp: list_all_iff dest!: map_of_SomeD)

lemma follow_regular: "is_regular x \<Longrightarrow> follow x = Some x"
  by (cases x) (simp_all add: is_regular_def)

lemma is_dir_entry_of [simp]: "is_dir (entry_of p (nm, x)) = (dir_of x \<noteq> None)"
  by (auto simp: entry_of_def dir_of_def split: option.splits node.splits)

lemma is_file_entry_of [simp]: "is_file_nofollow (entry_of p (nm, x)) = is_regular x"
  by (simp add: entry_of_def)

lemma child_Dir: "child (Some (Dir es)) nm = (case map_of es nm of None \<Rightarrow> None | Some x \<Rightarrow> follow x)"
  by (simp add: child_def)

lemma dir_of_follow: "dir_of x = Some a \<Longrightarrow> follow x = Some (Dir a)"
  by (auto simp: dir_of_def split: option.splits node.splits)

lemma traversal_mismatch:
  "wf_node (Dir ces) \<Longrightarrow> wf_node (Dir nes) \<Longrightarrow> c = Some (Dir ces) \<Longrightarrow> n = Some (Dir nes)
     \<Longrightarrow> outcome (mismatch ces nes) (fst (recurse_on_rel_path cur_root new_root c n rel acts w))"
  "wf_node (Dir ces) \<Longrightarrow> wf_node (Dir nes) \<Longrightarrow> c = Some (Dir ces) \<Longrightarrow> n = Some (Dir nes)
     \<Longrightarrow> consistent (cur_root @ ''/'' @ rel) (new_root @ ''/'' @ rel) ces nes items
     \<Longrightarrow> outcome (\<exists>it\<in>set items. item_mismatch ces nes (fst it))
           (fst (for_items cur_root new_root c n rel items acts w))"
proof (induction cur_root new_root c n rel acts w and cur_root new_root c n rel items acts w
       arbitrary: ces nes and ces nes rule: recurse_on_rel_path_for_items.induct)
  case (1 cur_root new_root c n dir_rel_path acts w)
  let ?pc = "cur_root @ ''/'' @ dir_rel_path" and ?pn = "new_root @ ''/'' @ dir_rel_path"
  from "1.prems"(1,2) have dist: "distinct (map fst ces)" "distinct (map fst nes)" by simp_all
  from scan_roots_dirs [OF dist, of cur_root new_root dir_rel_path w] obtain d w1
    where d: "scan_roots cur_root new_root c n dir_rel_path w = (Inr d, w1)"
      "distinct (map fst d)" "map_of d = pairing_map ?pc ?pn ces nes"
    using "1.prems"(3,4) by blast
  have cons: "consistent ?pc ?pn ces nes (sort_key fst d)"
    unfolding consistent_def using in_sorted_pairing [OF d(2)] d(3) by metis
  have "(\<exists>it\<in>set (sort_key fst d). item_mismatch ces nes (fst it)) = mismatch ces nes"
  proof -
    { fix nm assume nm: "\<not> fnmatchcase nm ''.*.swp''" "item_mismatch ces nes nm"
      then have "pairing_map ?pc ?pn ces nes nm \<noteq> None"
        by (auto simp: pairing_map_def item_mismatch_def split: option.splits)
      then obtain v where "map_of d nm = Some v" using d(3) by auto
      then have "(nm, v) \<in> set (sort_key fst d)" by (auto dest: map_of_SomeD)
      with nm(2) have "\<exists>it\<in>set (sort_key fst d). item_mismatch ces nes (fst it)" by force }
    moreover
    { fix it assume it: "it \<in> set (sort_key fst d)" "item_mismatch ces nes (fst it)"
      from in_sorted_pairing [OF d(2) it(1)] d(3)
      have "\<not> fnmatchcase (fst it) ''.*.swp''"
        by (auto simp: pairing_map_def split: if_splits)
      with it(2) have "\<exists>nm. \<not> fnmatchcase nm ''.*.swp'' \<and> item_mismatch ces nes nm" by blast }
    ultimately show ?thesis
      unfolding mismatch_iff [OF dist(1)] by blast
  qed
  with "1.IH" [OF d(1) [symmetric] refl "1.prems" cons] d(1) show ?case
    by (simp add: recurse_on_rel_path.simps)
next
  case (2 cur_root new_root c n dir_rel_path acts w)
  show ?case by (simp add: outcome_def)
next
  case (3 cur_root new_root c n dir_rel_path item_name items acts w)
  from "3.prems"(5) have False
    by (auto simp: consistent_def pairing_map_def slot_def split: if_splits option.splits)
  then show ?case ..
next
  case (4 cur_root new_root c n dir_rel_path item_name ce items acts w)
  from "4.prems"(5) have "map_of nes item_name = None"
    and cons: "consistent (cur_root @ ''/'' @ dir_rel_path) (new_root @ ''/'' @ dir_rel_path) ces nes items"
    by (auto simp: consistent_def pairing_map_def slot_def split: if_splits option.splits)
  then have "\<not> item_mismatch ces nes item_name"
    by (simp add: item_mismatch_def split: option.splits)
  with "4.IH" [OF "4.prems"(1-4) cons] show ?case by simp
next
  case (5 cur_root new_root c n dir_rel_path item_name ne items acts w)
  from "5.prems"(5) have "map_of ces item_name = None"
    and cons: "consistent (cur_root @ ''/'' @ dir_rel_path) (new_root @ ''/'' @ dir_rel_path) ces nes items"
    by (auto simp: consistent_def pairing_map_def slot_def split: if_splits option.splits)
  then have "\<not> item_mismatch ces nes item_name"
    by (simp add: item_mismatch_def split: option.splits)
  with "5.IH" [OF "5.prems"(1-4) cons] show ?case by simp
next
  case (6 cur_root new_root c n dir_rel_path item_name ce ne items acts w)
  let ?pc = "cur_root @ ''/'' @ dir_rel_path" and ?pn = "new_root @ ''/'' @ dir_rel_path"
  from "6.prems"(5) obtain x y where xy: "map_of ces item_name = Some x" "map_of nes item_name = Some y"
    "ce = entry_of ?pc (item_name, x)" "ne = entry_of ?pn (item_name, y)"
    and cons: "consistent ?pc ?pn ces nes items"
    by (auto simp: consistent_def pairing_map_def slot_def split: if_splits option.splits)
  have ch: "child c item_name = follow x" "child n item_name = follow y"
    using xy(1,2) "6.prems"(3,4) by (simp_all add: child_Dir)
  have wfxy: "wf_node x" "wf_node y"
    using wf_entry [OF "6.prems"(1) xy(1)] wf_entry [OF "6.prems"(2) xy(2)] by simp_all
  have im: "item_mismatch ces nes item_name
      = (\<not> (is_regular x \<and> is_regular y)
         \<and> (case dir_of x of None \<Rightarrow> True
             | Some a \<Rightarrow> (case dir_of y of None \<Rightarrow> True | Some b \<Rightarrow> mismatch a b)))"
    using xy(1,2) by (simp add: item_mismatch_def)
  show ?case
  proof (cases "is_regular x \<and> is_regular y")
    case True
    then have files: "is_file_nofollow ce \<and> is_file_nofollow ne" using xy(3,4) by simp
    from True have cmp: "filecmp_cmp (child c item_name) (child n item_name) = Inr (x = y)"
      using ch by (simp add: follow_regular filecmp_cmp_alt)
    from "6.IH"(1) [OF files cmp "6.prems"(1-4) cons] files cmp True im show ?thesis
      by simp
  next
    case False
    then have nf: "\<not> (is_file_nofollow ce \<and> is_file_nofollow ne)" using xy(3,4) by simp
    show ?thesis
    proof (cases "dir_of x")
      case None
      with nf xy(3) False im show ?thesis by (auto simp: outcome_def)
    next
      case (Some a)
      show ?thesis
      proof (cases "dir_of y")
        case None
        with nf xy(4) False im Some show ?thesis by (auto simp: outcome_def)
      next
        case sb: (Some b)
        have dirs: "is_dir ce \<and> is_dir ne" using xy(3,4) Some sb by simp
        have cd: "child c item_name = Some (Dir a)" "child n item_name = Some (Dir b)"
          using ch dir_of_follow [OF Some] dir_of_follow [OF sb] by simp_all
        have wfab: "wf_node (Dir a)" "wf_node (Dir b)"
          using wf_dir_of [OF wfxy(1) Some] wf_dir_of [OF wfxy(2) sb] by simp_all
        obtain r w1 where rec: "recurse_on_rel_path cur_root new_root (Some (Dir a))
            (child n item_name) (dir_rel_path @ ''/'' @ item_name) acts w = (r, w1)"
          by (cases "recurse_on_rel_path cur_root new_root (Some (Dir a)) (child n item_name)
            (dir_rel_path @ ''/'' @ item_name) acts w") auto
        have o: "outcome (mismatch a b) r"
          using "6.IH"(2) [OF nf dirs cd(1) wfab refl cd(2)] rec by simp
        from im False Some sb have im': "item_mismatch ces nes item_name = mismatch a b" by simp
        show ?thesis
        proof (cases r)
          case (Inl e)
          with o rec nf dirs cd im' show ?thesis by (auto simp: outcome_def)
        next
          case (Inr acts')
          with o have "\<not> mismatch a b" by (simp add: outcome_def)
          with "6.IH"(3) [OF nf dirs cd(1) rec [symmetric] Inr "6.prems"(1-4) cons]
            Inr rec nf dirs cd im'
          show ?thesis by auto
        qed
      qed
    qed
  qed
qed

lemma stat_dot:
  assumes "os_lstat root p = Some (Dir es)"
  shows "os_stat root (p @ ''/'' @ ''.'') = Some (Dir es)"
proof -
  from assms have p: "p \<noteq> []" "walk root (components p) = Some (Dir es)"
    by (auto simp: os_lstat_def split: if_splits)
  then have "resolve_dir root (components p) = Some es" by (simp add: resolve_dir_def)
  moreover have "components (p @ ''/'' @ ''.'') = components p @ [''.'']"
    by (rule components_slash) simp
  ultimately have "walk root (components (p @ ''/'' @ ''.'')) = Some (Dir es)"
    by (simp add: walk_snoc stays_def)
  then show ?thesis by (simp add: os_stat_def os_lstat_def)
qed

lemma get_type_simps:
  "os_lstat root p = Some x \<Longrightarrow>
   get_type root p = Inr (if is_directory x then ''dir'' else if is_regular x then ''reg'' else ''other'')"
  by (simp add: get_type_def)

lemma exists_plain:
  "os_lstat root p = Some x \<Longrightarrow> is_regular x \<or> is_directory x \<Longrightarrow> os_path_exists root p"
  by (cases x) (auto simp: os_path_exists_def os_stat_def is_regular_def is_directory_def)

lemmas arg_defs = arg_paths_def endswith_def handle_arg_def handle_pair_def main_def

section \<open>The traversal of the examples\<close>

lemma traversal_differ:
  "recurse_on_rel_path ''p'' ''p.new'' (os_stat trees_differ (''p'' @ ''/'' @ ''.''))
     (os_stat trees_differ (''p.new'' @ ''/'' @ ''.'')) ''.'' [] (world_of trees_differ inp)
   = (Inr actions_differ, world_of trees_differ inp)"
  by (simp add: trees_differ_def actions_differ_def os_defs io_defs dir_defs)

lemma traversal_same:
  "recurse_on_rel_path ''p'' (''p'' @ ''.new'') (os_stat trees_same (''p'' @ ''/'' @ ''.''))
     (os_stat trees_same ((''p'' @ ''.new'') @ ''/'' @ ''.'')) ''.'' [] (world_of trees_same inp)
   = (Inr actions_same, (world_of trees_same inp)\<lparr>trace := [Stderr ''ignoring: p/./.a.swp'']\<rparr>)"
  by (simp add: trees_same_def actions_same_def os_defs io_defs dir_defs)

section \<open>Single files: the claims\<close>

text \<open>
  C10. In the single-file workflow, when the two files differ and the operator answers
  \<^verbatim>\<open>n\<close> (after any number of answers that are not accepted), \<^verbatim>\<open>handle_files\<close> returns
  normally and the file system is as before: the current file keeps its content and the
  \<^verbatim>\<open>.new\<close> candidate stays where it is.
\<close>

theorem handle_files_skip_leaves_both:
  assumes "os_lstat (fs w) cur_path = Some (Reg a)"
    and "os_lstat (fs w) new_path = Some (Reg b)"
    and "a \<noteq> b"
    and "stdin w = bad @ ''n'' # rest"
    and "\<forall>r\<in>set bad. r \<notin> set [''y'', ''b'', ''n'', ''q'']"
  shows "\<exists>w'. handle_files cur_path new_path w = (Inr (), w') \<and> fs w' = fs w
              \<and> os_lstat (fs w') cur_path = Some (Reg a)
              \<and> os_lstat (fs w') new_path = Some (Reg b) \<and> stdin w' = rest"
proof -
  have cmp: "filecmp_cmp (os_stat (fs w) cur_path) (os_stat (fs w) new_path) = Inr False"
    using assms(1,2,3) by (simp add: filecmp_cmp_def os_stat_def)
  have "stdin (gdiff cur_path new_path w) = bad @ ''n'' # rest"
    using assms(4) by simp
  from get_input_valid [OF this assms(5), of "''update '' @ cur_path @ '' ?''"]
  obtain w1 where w1: "get_input (''update '' @ cur_path @ '' ?'') [''y'', ''b'', ''n'', ''q'']
        (gdiff cur_path new_path w) = (Inr ''n'', w1)" "fs w1 = fs w" "stdin w1 = rest"
    by auto
  show ?thesis
    using cmp w1 assms(1,2) by (simp add: handle_files_def then_do_def)
qed


theorem handle_files_skip_witness:
  "\<exists>w'. handle_files ''f'' ''f.new'' (world_of files_differ [''maybe'', ''n'', ''y'']) = (Inr (), w')
        \<and> fs w' = fs (world_of files_differ [''maybe'', ''n'', ''y''])
        \<and> os_lstat (fs w') ''f'' = Some (Reg ''old'')
        \<and> os_lstat (fs w') ''f.new'' = Some (Reg ''new'') \<and> stdin w' = [''y'']"
  by (rule handle_files_skip_leaves_both [where bad = "[''maybe'']"])
     (simp_all add: world_of_def files_differ_def os_lstat_def components_def stays_def)

text \<open>
  C4. \<^verbatim>\<open>handle_files\<close> with the answer \<^verbatim>\<open>b\<close>, on a current file and its \<^verbatim>\<open>.new\<close> candidate
  that differ: whatever was at the \<^verbatim>\<open>.bak\<close> path before (nothing, a file, a directory, a
  link that does not lead to a directory), afterwards the \<^verbatim>\<open>.bak\<close> path holds exactly the
  bytes that were current before the call, the current path holds the bytes of the
  candidate, and the candidate path is gone.
\<close>

theorem backup_then_replace:
  assumes cur: "os_lstat (fs w) cur_path = Some (Reg a)"
    and new: "os_lstat (fs w) (cur_path @ ''.new'') = Some (Reg c)"
    and differ: "a \<noteq> c"
    and input: "stdin w = bad @ ''b'' # rest"
    and bad: "\<forall>r\<in>set bad. r \<notin> set [''y'', ''b'', ''n'', ''q'']"
    and bak: "\<forall>t. os_lstat (fs w) (cur_path @ ''.bak'') = Some (Lnk t)
                \<longrightarrow> \<not> os_path_isdir (fs w) (cur_path @ ''.bak'')"
  shows "\<exists>w'. handle_files cur_path (cur_path @ ''.new'') w = (Inr (), w')
              \<and> os_lstat (fs w') (cur_path @ ''.bak'') = Some (Reg a)
              \<and> os_lstat (fs w') cur_path = Some (Reg c)
              \<and> os_lstat (fs w') (cur_path @ ''.new'') = None
              \<and> stdin w' = rest"
proof -
  define ds where "ds = butlast (components cur_path)"
  define b where "b = last (components cur_path)"
  have pc: "components cur_path = ds @ [b]"
    unfolding ds_def b_def by (rule components_snoc)
  have pn: "components (cur_path @ ''.new'') = ds @ [b @ ''.new'']"
    unfolding ds_def b_def by (simp add: components_append)
  have pb: "components (cur_path @ ''.bak'') = ds @ [b @ ''.bak'']"
    unfolding ds_def b_def by (simp add: components_append)
  have sn: "\<not> stays (b @ ''.new'')" and sb: "\<not> stays (b @ ''.bak'')"
    by (auto simp: stays_def)
  from cur obtain es where es: "resolve_dir (fs w) ds = Some es" "\<not> stays b"
      "map_of es b = Some (Reg a)"
    unfolding ds_def b_def by (rule lstat_nondirE) (simp_all add: is_directory_def)
  from new have esn: "map_of es (b @ ''.new'') = Some (Reg c)"
    using es(1) by (simp add: lstat_at [OF pn sn])
  have cmp: "filecmp_cmp (os_stat (fs w) cur_path) (os_stat (fs w) (cur_path @ ''.new'')) = Inr False"
    using cur new differ by (simp add: filecmp_cmp_def os_stat_def)
  have "stdin (gdiff cur_path (cur_path @ ''.new'') w) = bad @ ''b'' # rest"
    using input by simp
  from get_input_valid [OF this bad, of "''update '' @ cur_path @ '' ?''"]
  obtain w1 where w1: "get_input (''update '' @ cur_path @ '' ?'') [''y'', ''b'', ''n'', ''q'']
        (gdiff cur_path (cur_path @ ''.new'') w) = (Inr ''b'', w1)" "fs w1 = fs w" "stdin w1 = rest"
    by auto
  have "\<forall>t. map_of es (b @ ''.bak'') = Some (Lnk t)
          \<longrightarrow> \<not> os_path_isdir (fs w) (cur_path @ ''.bak'')"
    using bak es(1) by (simp add: lstat_at [OF pb sb])
  from remove_previous_backup_at [OF es(1) pb sb this] obtain r1 es1
    where r1: "remove_previous_backup (cur_path @ ''.bak'') (fs w) = Inr r1"
      "resolve_dir r1 ds = Some es1"
      "\<forall>k'. k' \<noteq> b @ ''.bak'' \<longrightarrow> map_of es1 k' = map_of es k'"
      "\<forall>y. map_of es1 (b @ ''.bak'') = Some y \<longrightarrow> \<not> is_directory y"
    by blast
  have m1: "map_of es1 b = Some (Reg a)" "map_of es1 (b @ ''.new'') = Some (Reg c)"
    using r1(3) es(3) esn by simp_all
  have c1: "case map_of es1 (b @ ''.bak'') of None \<Rightarrow> True
            | Some (Dir es') \<Rightarrow> is_directory (Reg a) \<and> es' = []
            | Some y \<Rightarrow> \<not> is_directory (Reg a)"
    using r1(4) by (auto simp: is_directory_def split: option.splits node.splits)
  from rename_at [OF r1(2) pc es(2) pb sb m1(1) c1] obtain r2
    where r2: "os_rename r1 cur_path (cur_path @ ''.bak'') = Inr r2"
      "resolve_dir r2 ds = Some (AList.update (b @ ''.bak'') (Reg a) (AList.delete b es1))"
    by blast
  let ?es2 = "AList.update (b @ ''.bak'') (Reg a) (AList.delete b es1)"
  have m2: "map_of ?es2 (b @ ''.new'') = Some (Reg c)"
    using m1(2) by (simp add: update_conv' delete_conv')
  have c2: "case map_of ?es2 b of None \<Rightarrow> True
            | Some (Dir es') \<Rightarrow> is_directory (Reg c) \<and> es' = []
            | Some y \<Rightarrow> \<not> is_directory (Reg c)"
    by (simp add: update_conv' delete_conv')
  from rename_at [OF r2(2) pn sn pc es(2) m2 c2] obtain r3
    where r3: "os_rename r2 (cur_path @ ''.new'') cur_path = Inr r3"
      "resolve_dir r3 ds = Some (AList.update b (Reg c) (AList.delete (b @ ''.new'') ?es2))"
    by blast
  have run: "handle_files cur_path (cur_path @ ''.new'') w = (Inr (), w1\<lparr>fs := r3\<rparr>)"
    using cmp w1 r1(1) r2(1) r3(1)
    by (simp add: handle_files_def then_do_def fs_op_def Let_def)
  have "os_lstat r3 (cur_path @ ''.bak'') = Some (Reg a)"
    using r3(2) by (simp add: lstat_at [OF pb sb] update_conv' delete_conv')
  moreover have "os_lstat r3 cur_path = Some (Reg c)"
    using r3(2) by (simp add: lstat_at [OF pc es(2)] update_conv' delete_conv')
  moreover have "os_lstat r3 (cur_path @ ''.new'') = None"
    using r3(2) by (simp add: lstat_at [OF pn sn] update_conv' delete_conv')
  ultimately show ?thesis using run w1(3) by simp
qed

theorem backup_then_replace_witness:
  "\<exists>w'. handle_files ''f'' (''f'' @ ''.new'') (world_of files_differ [''b'']) = (Inr (), w')
        \<and> os_lstat (fs w') (''f'' @ ''.bak'') = Some (Reg ''old'')
        \<and> os_lstat (fs w') ''f'' = Some (Reg ''new'')
        \<and> os_lstat (fs w') (''f'' @ ''.new'') = None
        \<and> stdin w' = []"
  by (rule backup_then_replace [where bad = "[]"])
     (simp_all add: world_of_def files_differ_def os_lstat_def components_def stays_def)

text \<open>
  The hypothesis on the prior backup cannot be dropped: where the \<^verbatim>\<open>.bak\<close> path is a link
  to a directory, \<^verbatim>\<open>os.path.isdir\<close> follows it, \<^verbatim>\<open>shutil.rmtree\<close> refuses a link, and the
  exception leaves everything as it was.
\<close>

lemma backup_link_to_directory:
  "fst (handle_files ''f'' ''f.new'' (world_of files_link_backup [''b''])) = Inl OSError
   \<and> fs (snd (handle_files ''f'' ''f.new'' (world_of files_link_backup [''b'']))) = files_link_backup"
  by (simp add: handle_files_def remove_previous_backup_def files_link_backup_def os_defs io_defs
        Let_def)

text \<open>
  C6, as the claim states it: for two byte-identical regular files no mutation occurs.
  It fails: \<^verbatim>\<open>handle_files\<close> removes the candidate, although the operator was not asked.
\<close>

theorem identical_files_counterexample:
  "os_lstat files_same ''f'' = Some (Reg ''same'')
   \<and> os_lstat files_same ''f.new'' = Some (Reg ''same'')
   \<and> fst (handle_files ''f'' ''f.new'' (world_of files_same [])) = Inr ()
   \<and> fs (snd (handle_files ''f'' ''f.new'' (world_of files_same []))) \<noteq> files_same
   \<and> os_lstat (fs (snd (handle_files ''f'' ''f.new'' (world_of files_same [])))) ''f.new'' = None"
  by (simp add: handle_files_def files_same_def os_defs io_defs)

text \<open>
  C6, amended. For a regular file and a \<^verbatim>\<open>.new\<close> candidate with the same bytes,
  \<^verbatim>\<open>handle_files\<close> reports \<^verbatim>\<open>No change\<close>, reads no input, leaves the current file as it
  is and removes the candidate.
\<close>

theorem handle_files_identical:
  assumes cur: "os_lstat (fs w) cur_path = Some (Reg a)"
    and new: "os_lstat (fs w) (cur_path @ ''.new'') = Some (Reg a)"
  shows "\<exists>w'. handle_files cur_path (cur_path @ ''.new'') w = (Inr (), w')
              \<and> os_lstat (fs w') cur_path = Some (Reg a)
              \<and> os_lstat (fs w') (cur_path @ ''.new'') = None
              \<and> stdin w' = stdin w
              \<and> trace w' = trace w @ [Stderr (''No change from '' @ cur_path)]"
proof -
  define ds where "ds = butlast (components cur_path)"
  define b where "b = last (components cur_path)"
  have pc: "components cur_path = ds @ [b]"
    unfolding ds_def b_def by (rule components_snoc)
  have pn: "components (cur_path @ ''.new'') = ds @ [b @ ''.new'']"
    unfolding ds_def b_def by (simp add: components_append)
  have sn: "\<not> stays (b @ ''.new'')"
    by (auto simp: stays_def)
  from cur obtain es where es: "resolve_dir (fs w) ds = Some es" "\<not> stays b"
      "map_of es b = Some (Reg a)"
    unfolding ds_def b_def by (rule lstat_nondirE) (simp_all add: is_directory_def)
  have cmp: "filecmp_cmp (os_stat (fs w) cur_path) (os_stat (fs w) (cur_path @ ''.new'')) = Inr True"
    using cur new by (simp add: filecmp_cmp_def os_stat_def)
  from unlink_at [OF es(1) pn sn] obtain r
    where r: "unlink (fs w) (cur_path @ ''.new'') = Inr r"
      "resolve_dir r ds = Some (AList.delete (b @ ''.new'') es)"
    by blast
  have run: "handle_files cur_path (cur_path @ ''.new'') w
      = (Inr (), (stderr (''No change from '' @ cur_path) w)\<lparr>fs := r\<rparr>)"
    using cmp new r(1)
    by (simp add: handle_files_def fs_op_def os_remove_def is_directory_def)
  have "os_lstat r cur_path = Some (Reg a)"
    using r(2) es(3) by (simp add: lstat_at [OF pc es(2)] delete_conv')
  moreover have "os_lstat r (cur_path @ ''.new'') = None"
    using r(2) by (simp add: lstat_at [OF pn sn] delete_conv')
  ultimately show ?thesis using run by (simp add: stderr_def)
qed

theorem handle_files_identical_witness:
  "\<exists>w'. handle_files ''f'' (''f'' @ ''.new'') (world_of files_same [''y'']) = (Inr (), w')
        \<and> os_lstat (fs w') ''f'' = Some (Reg ''same'')
        \<and> os_lstat (fs w') (''f'' @ ''.new'') = None
        \<and> stdin w' = stdin (world_of files_same [''y''])
        \<and> trace w' = trace (world_of files_same [''y'']) @ [Stderr (''No change from '' @ ''f'')]"
  by (rule handle_files_identical)
     (simp_all add: world_of_def files_same_def os_lstat_def components_def stays_def)

section \<open>Directories: the claims\<close>

text \<open>
  C8. For the actions that the traversal of two directories returns (started on the empty
  dictionary, as \<^verbatim>\<open>handle_dirs\<close> does), grouping succeeds, the dictionary \<^verbatim>\<open>would_\<close> has
  exactly the four verbs as keys, the four groups are pairwise disjoint, their union is
  the set of keys of the actions, and each group is sorted (in the lexicographic order of
  the characters) without repetition.
\<close>

theorem verb_groups_partition:
  assumes "recurse_on_rel_path cur_root new_root c n rel [] w = (Inr acts, w')"
  shows "\<exists>would. would_of acts = Inr would \<and> map fst would = verbs
           \<and> (\<forall>v\<in>set verbs. \<forall>u\<in>set verbs. v \<noteq> u
                 \<longrightarrow> set (would_at would v) \<inter> set (would_at would u) = {})
           \<and> (\<Union>v\<in>set verbs. set (would_at would v)) = fst ` set acts
           \<and> (\<forall>v\<in>set verbs. sorted (would_at would v) \<and> distinct (would_at would v))"
proof -
  from traversal_keeps_shape [OF assms] have shape: "verbs_ok acts" "distinct (map fst acts)"
    by (simp_all add: verbs_ok_def)
  let ?S = "sort_key fst acts"
  from would_of_ok [OF shape(1)] obtain would
    where would: "would_of acts = Inr would" "map fst would = verbs"
      "\<forall>v. would_at would v = map fst (filter (\<lambda>x. fst (snd x) = v) ?S)"
    by blast
  have dS: "distinct (map fst ?S)"
    using shape(2) by (metis distinct_map distinct_sort set_sort)
  have sS: "sorted (map fst ?S)" by (rule sorted_sort_key)
  have disj: "set (would_at would v) \<inter> set (would_at would u) = {}" if "v \<noteq> u" for v u
  proof -
    { fix p assume "p \<in> set (would_at would v)" "p \<in> set (would_at would u)"
      then obtain a b where "(p, a) \<in> set ?S" "fst a = v" "(p, b) \<in> set ?S" "fst b = u"
        using would(3) by auto
      with dS that have False by (metis eq_key_imp_eq_value) }
    then show ?thesis by blast
  qed
  have un: "(\<Union>v\<in>set verbs. set (would_at would v)) = fst ` set acts"
  proof (intro equalityI subsetI)
    fix p assume "p \<in> (\<Union>v\<in>set verbs. set (would_at would v))"
    then show "p \<in> fst ` set acts" using would(3) by force
  next
    fix p assume "p \<in> fst ` set acts"
    then obtain a where a: "(p, a) \<in> set acts" by auto
    with shape(1) have "fst a \<in> set verbs" by (auto simp: verbs_ok_def list_all_iff)
    moreover from a have "p \<in> set (would_at would (fst a))"
      using would(3) by force
    ultimately show "p \<in> (\<Union>v\<in>set verbs. set (would_at would v))" by blast
  qed
  have so: "sorted (would_at would v) \<and> distinct (would_at would v)" for v
    using would(3) sS dS by (simp add: sorted_filter distinct_map_filter)
  from would(1,2) disj un so show ?thesis by blast
qed

theorem verb_groups_partition_witness:
  "\<exists>would. would_of actions_differ = Inr would \<and> map fst would = verbs
           \<and> (\<forall>v\<in>set verbs. \<forall>u\<in>set verbs. v \<noteq> u
                 \<longrightarrow> set (would_at would v) \<inter> set (would_at would u) = {})
           \<and> (\<Union>v\<in>set verbs. set (would_at would v)) = fst ` set actions_differ
           \<and> (\<forall>v\<in>set verbs. sorted (would_at would v) \<and> distinct (would_at would v))"
  by (rule verb_groups_partition [OF traversal_differ [of "[]"]])


text \<open>
  C1, as the claim states it: on the answer \<^verbatim>\<open>n\<close> the new tree is discarded. It fails:
  \<^verbatim>\<open>handle_dirs\<close> returns and the new tree is still there.
\<close>

theorem skip_keeps_new_tree_counterexample:
  "fst (handle_dirs ''p'' ''p.new'' (world_of trees_differ [''n''])) = Inr ()
   \<and> os_lstat (fs (snd (handle_dirs ''p'' ''p.new'' (world_of trees_differ [''n'']))))
        ''p.new'' = Some (Dir [(''c'', Reg ''3''), (''a'', Reg ''1'')])"
  by (simp add: handle_dirs_def trees_differ_def os_defs io_defs dir_defs Let_def
        report_group_def select_loop.simps select_prompt_def apostrophe_def)

text \<open>
  C1, amended. When the merge has an effect, so that the operator is asked, and the
  operator answers \<^verbatim>\<open>n\<close> (after any number of answers that are not accepted and of groups
  examined), \<^verbatim>\<open>handle_dirs\<close> writes \<^verbatim>\<open>skipping\<close> and the new root to the standard error
  stream as the last thing it does, and returns normally; the file system is as before:
  both the current tree and the new tree are untouched, and the input after that answer
  is left unread.
\<close>

theorem skip_leaves_both_trees:
  assumes trav: "recurse_on_rel_path cur_root new_root
                   (os_stat (fs w) (cur_root @ ''/'' @ ''.'')) (os_stat (fs w) (new_root @ ''/'' @ ''.''))
                   ''.'' [] w = (Inr acts, w1)"
    and would: "would_of acts = Inr would"
    and effect: "would_at would ''delete'' \<noteq> [] \<or> would_at would ''create'' \<noteq> []
                 \<or> would_at would ''alter'' \<noteq> []"
    and input: "stdin w = pre @ ''n'' # rest" "''y'' \<notin> set pre" "''n'' \<notin> set pre"
  shows "\<exists>w'. handle_dirs cur_root new_root w = (Inr (), w') \<and> fs w' = fs w
              \<and> os_lstat (fs w') new_root = os_lstat (fs w) new_root
              \<and> os_lstat (fs w') cur_root = os_lstat (fs w) cur_root
              \<and> stdin w' = rest
              \<and> last (trace w') = Stderr (''skipping '' @ new_root @ ''...'')"
proof -
  from traversal_quiet_result [OF trav]
  have q: "fs w1 = fs w" "stdin w1 = stdin w"
    by (simp_all add: extends_quietly_def)
  from traversal_keeps_shape [OF trav] have "verbs_ok acts" by (simp add: verbs_ok_def)
  from would_of_ok [OF this] would have keys: "set verbs \<subseteq> fst ` set would"
    by (metis list.set_map order_refl sum.inject(2))
  let ?w2 = "fold report_group would
               (print (''Replacing '' @ cur_root @ '' with '' @ new_root @ '' would...'')
                  (print [] w1))"
  have "stdin ?w2 = pre @ ''n'' # rest" using q input(1) by simp
  from select_loop_skip [OF keys this input(2,3), of cur_root new_root]
  obtain w' where "select_loop cur_root new_root would ?w2 = (Inr (), w')" "fs w' = fs ?w2"
    "stdin w' = rest" "last (trace w') = Stderr (''skipping '' @ new_root @ ''...'')"
    by blast
  with trav would effect q show ?thesis
    by (auto simp: handle_dirs_def Let_def)
qed

theorem skip_leaves_both_trees_witness:
  "\<exists>w'. handle_dirs ''p'' ''p.new'' (world_of trees_differ [''d'', ''what'', ''n'', ''y'']) = (Inr (), w')
        \<and> fs w' = fs (world_of trees_differ [''d'', ''what'', ''n'', ''y''])
        \<and> os_lstat (fs w') ''p.new''
            = os_lstat (fs (world_of trees_differ [''d'', ''what'', ''n'', ''y''])) ''p.new''
        \<and> os_lstat (fs w') ''p''
            = os_lstat (fs (world_of trees_differ [''d'', ''what'', ''n'', ''y''])) ''p''
        \<and> stdin w' = [''y'']
        \<and> last (trace w') = Stderr (''skipping '' @ ''p.new'' @ ''...'')"
proof (rule skip_leaves_both_trees [where pre = "[''d'', ''what'']"])
  show "recurse_on_rel_path ''p'' ''p.new''
          (os_stat (fs (world_of trees_differ [''d'', ''what'', ''n'', ''y''])) (''p'' @ ''/'' @ ''.''))
          (os_stat (fs (world_of trees_differ [''d'', ''what'', ''n'', ''y''])) (''p.new'' @ ''/'' @ ''.''))
          ''.'' [] (world_of trees_differ [''d'', ''what'', ''n'', ''y''])
        = (Inr actions_differ, world_of trees_differ [''d'', ''what'', ''n'', ''y''])"
    using traversal_differ [of "[''d'', ''what'', ''n'', ''y'']"] by (simp add: world_of_def)
  show "would_of actions_differ
        = Inr [(''delete'', [''./b'']), (''create'', [''./c'']), (''alter'', []), (''leave'', [''./a''])]"
    by (simp add: actions_differ_def would_of_def would_empty_def would_append_def)
  show "would_at [(''delete'', [''./b'']), (''create'', [''./c'']), (''alter'', []), (''leave'', [''./a''])]
          ''delete'' \<noteq> []
        \<or> would_at [(''delete'', [''./b'']), (''create'', [''./c'']), (''alter'', []), (''leave'', [''./a''])]
          ''create'' \<noteq> []
        \<or> would_at [(''delete'', [''./b'']), (''create'', [''./c'']), (''alter'', []), (''leave'', [''./a''])]
          ''alter'' \<noteq> []"
    by (simp add: would_at_def)
qed (simp_all add: world_of_def)


text \<open>
  C5. When the groups \<^verbatim>\<open>delete\<close>, \<^verbatim>\<open>create\<close> and \<^verbatim>\<open>alter\<close> of a merge of a directory and
  its \<^verbatim>\<open>.new\<close> candidate are all empty, \<^verbatim>\<open>handle_dirs\<close> prints that replacing would have no
  effect, removes the candidate tree and returns: the file system afterwards is what
  \<^verbatim>\<open>shutil.rmtree\<close> of the candidate makes of it, the candidate path is gone, no input
  was read and nothing was prompted (before the report, nothing but lines on standard
  error; after it, the four lines of the report).
\<close>

theorem no_effect_removes_candidate:
  assumes trav: "recurse_on_rel_path cur_root (cur_root @ ''.new'')
                   (os_stat (fs w) (cur_root @ ''/'' @ ''.''))
                   (os_stat (fs w) ((cur_root @ ''.new'') @ ''/'' @ ''.''))
                   ''.'' [] w = (Inr acts, w1)"
    and would: "would_of acts = Inr would"
    and none: "would_at would ''delete'' = []" "would_at would ''create'' = []"
              "would_at would ''alter'' = []"
    and dir: "os_lstat (fs w) (cur_root @ ''.new'') = Some (Dir es)"
  shows "\<exists>w'. handle_dirs cur_root (cur_root @ ''.new'') w = (Inr (), w')
              \<and> shutil_rmtree (fs w) (cur_root @ ''.new'') = Inr (fs w')
              \<and> os_lstat (fs w') (cur_root @ ''.new'') = None
              \<and> stdin w' = stdin w
              \<and> extends_quietly w w1
              \<and> trace w' = trace w1 @
                   [Stdout [],
                    Stdout (''Replacing '' @ cur_root @ '' with '' @ cur_root @ ''.new'' @ '' would...''),
                    Stdout ''    have no effect,'',
                    Stdout (''    so removing '' @ cur_root @ ''.new'' @ ''...'')]"
proof -
  from traversal_quiet_result [OF trav]
  have q: "extends_quietly w w1" .
  then have q': "fs w1 = fs w" "stdin w1 = stdin w" by (simp_all add: extends_quietly_def)
  define ds where "ds = butlast (components cur_root)"
  define b where "b = last (components cur_root)"
  have pn: "components (cur_root @ ''.new'') = ds @ [b @ ''.new'']"
    unfolding ds_def b_def by (simp add: components_append)
  have sn: "\<not> stays (b @ ''.new'')" by (auto simp: stays_def)
  from dir obtain es0 where es0: "resolve_dir (fs w) ds = Some es0"
    by (auto simp: lstat_at [OF pn sn] split: option.splits)
  from unlink_at [OF es0 pn sn] obtain r where r: "unlink (fs w) (cur_root @ ''.new'') = Inr r"
    by blast
  with dir have rm: "shutil_rmtree (fs w) (cur_root @ ''.new'') = Inr r"
    by (simp add: shutil_rmtree_def is_directory_def)
  have "handle_dirs cur_root (cur_root @ ''.new'') w
      = (Inr (), (print (''    so removing '' @ cur_root @ ''.new'' @ ''...'')
                   (print ''    have no effect,''
                     (print (''Replacing '' @ cur_root @ '' with '' @ cur_root @ ''.new''
                             @ '' would...'')
                        (print [] w1))))\<lparr>fs := r\<rparr>)"
    using trav would none rm q' by (simp add: handle_dirs_def Let_def fs_op_def)
  with rm q q' unlink_gone [OF r] show ?thesis by (simp add: print_def)
qed

theorem no_effect_removes_candidate_witness:
  "\<exists>w'. handle_dirs ''p'' (''p'' @ ''.new'') (world_of trees_same [''y'']) = (Inr (), w')
        \<and> shutil_rmtree (fs (world_of trees_same [''y''])) (''p'' @ ''.new'') = Inr (fs w')
        \<and> os_lstat (fs w') (''p'' @ ''.new'') = None
        \<and> stdin w' = stdin (world_of trees_same [''y''])
        \<and> extends_quietly (world_of trees_same [''y''])
             ((world_of trees_same [''y''])\<lparr>trace := [Stderr ''ignoring: p/./.a.swp'']\<rparr>)
        \<and> trace w' = trace ((world_of trees_same [''y''])\<lparr>trace := [Stderr ''ignoring: p/./.a.swp'']\<rparr>) @
             [Stdout [],
              Stdout (''Replacing '' @ ''p'' @ '' with '' @ ''p'' @ ''.new'' @ '' would...''),
              Stdout ''    have no effect,'',
              Stdout (''    so removing '' @ ''p'' @ ''.new'' @ ''...'')]"
proof (rule no_effect_removes_candidate)
  show "recurse_on_rel_path ''p'' (''p'' @ ''.new'')
          (os_stat (fs (world_of trees_same [''y''])) (''p'' @ ''/'' @ ''.''))
          (os_stat (fs (world_of trees_same [''y''])) ((''p'' @ ''.new'') @ ''/'' @ ''.''))
          ''.'' [] (world_of trees_same [''y''])
        = (Inr actions_same, (world_of trees_same [''y''])\<lparr>trace := [Stderr ''ignoring: p/./.a.swp'']\<rparr>)"
    using traversal_same [of "[''y'']"] by (simp add: world_of_def)
  show "would_of actions_same
        = Inr [(''delete'', []), (''create'', []), (''alter'', []), (''leave'', [''./a''])]"
    by (simp add: actions_same_def would_of_def would_empty_def would_append_def)
  show "os_lstat (fs (world_of trees_same [''y''])) (''p'' @ ''.new'') = Some (Dir [(''a'', Reg ''1'')])"
    by (simp add: world_of_def trees_same_def os_defs)
qed (simp_all add: would_at_def)

text \<open>
  C7. For every traversal of two well-formed directories, at any level (\<open>rel\<close> is the
  relative path of the level, \<open>acts0\<close> the actions found before it), that returns: no
  key of the actions has a component that matches \<^verbatim>\<open>.*.swp\<close> and no entry of an action has
  such a name; the same holds of every path in every group of \<^verbatim>\<open>would_\<close>; and every entry
  with such a name in either of the two listings has been logged as ignored.
\<close>

theorem swap_files_excluded:
  assumes wf: "wf_node (Dir ces)" "wf_node (Dir nes)"
    and rel: "clean_path rel"
    and acts0: "swap_free acts0"
    and run: "recurse_on_rel_path cur_root new_root (Some (Dir ces)) (Some (Dir nes)) rel acts0 w
              = (Inr acts, w')"
  shows "swap_free acts
       \<and> (\<forall>would verb. would_of acts = Inr would \<longrightarrow> list_all clean_path (would_at would verb))
       \<and> (\<forall>e\<in>set ces. fnmatchcase (fst e) ''.*.swp''
             \<longrightarrow> Stderr (''ignoring: '' @ (cur_root @ ''/'' @ rel) @ ''/'' @ fst e) \<in> set (trace w'))
       \<and> (\<forall>e\<in>set nes. fnmatchcase (fst e) ''.*.swp''
             \<longrightarrow> Stderr (''ignoring: '' @ (new_root @ ''/'' @ rel) @ ''/'' @ fst e) \<in> set (trace w'))"
proof -
  have sf: "swap_free acts"
    using traversal_swap_free(1) [of "Some (Dir ces)" "Some (Dir nes)" rel acts0 cur_root new_root w]
      wf rel acts0 run
    by (simp add: wf_opt_def)
  have groups: "list_all clean_path (would_at would verb)" if "would_of acts = Inr would"
    for would verb
    using would_of_subset [OF that, of verb] sf
    by (auto simp: list_all_iff swap_free_def)
  obtain r w1 where sc: "scan_roots cur_root new_root (Some (Dir ces)) (Some (Dir nes)) rel w = (r, w1)"
    by (cases "scan_roots cur_root new_root (Some (Dir ces)) (Some (Dir nes)) rel w")
  with run obtain d where d: "r = Inr d"
    and it: "for_items cur_root new_root (Some (Dir ces)) (Some (Dir nes)) rel (sort_key fst d) acts0 w1
             = (Inr acts, w')"
    by (cases r) (auto simp: recurse_on_rel_path.simps)
  have "set (trace w1) \<subseteq> set (trace w')"
    using traversal_quiet(2) [of w1 cur_root new_root "Some (Dir ces)" "Some (Dir nes)" rel
        "sort_key fst d" acts0] it
    by (auto dest: quiet_trace_mono)
  with scan_roots_logs [OF sc] sf groups show ?thesis by blast
qed

theorem swap_files_excluded_witness:
  "swap_free [(''./a'', ''alter'', [entry_of ''p/.'' (''a'', Reg ''1''), entry_of ''p.new/.'' (''a'', Reg ''2'')])]
   \<and> Stderr ''ignoring: p/./.a.swp''
        \<in> set (trace ((world_of (Dir []) [])\<lparr>trace := [Stderr ''ignoring: p/./.a.swp'',
                                                        Stderr ''ignoring: p.new/./.b.swp'']\<rparr>))
   \<and> Stderr ''ignoring: p.new/./.b.swp''
        \<in> set (trace ((world_of (Dir []) [])\<lparr>trace := [Stderr ''ignoring: p/./.a.swp'',
                                                        Stderr ''ignoring: p.new/./.b.swp'']\<rparr>))"
proof -
  have run: "recurse_on_rel_path ''p'' ''p.new'' (Some (Dir swap_cur)) (Some (Dir swap_new)) ''.'' []
               (world_of (Dir []) [])
       = (Inr [(''./a'', ''alter'', [entry_of ''p/.'' (''a'', Reg ''1''), entry_of ''p.new/.'' (''a'', Reg ''2'')])],
          (world_of (Dir []) [])\<lparr>trace := [Stderr ''ignoring: p/./.a.swp'',
                                            Stderr ''ignoring: p.new/./.b.swp'']\<rparr>)"
    by (simp add: swap_cur_def swap_new_def os_defs io_defs dir_defs)
  have wf: "wf_node (Dir swap_cur)" "wf_node (Dir swap_new)"
    by (simp_all add: swap_cur_def swap_new_def valid_name_def)
  have cl: "clean_path ''.''" "swap_free []"
    by (simp_all add: clean_path_def swap_free_def components_def fnmatchcase.simps)
  have m: "(''.a.swp'', Reg ''x'') \<in> set swap_cur" "fnmatchcase ''.a.swp'' ''.*.swp''"
    "(''.b.swp'', Reg ''y'') \<in> set swap_new" "fnmatchcase ''.b.swp'' ''.*.swp''"
    by (simp_all add: swap_cur_def swap_new_def fnmatchcase.simps)
  from swap_files_excluded [OF wf cl run] m show ?thesis by fastforce
qed


text \<open>
  C9. The traversal that \<^verbatim>\<open>handle_dirs\<close> starts returns the same result (the same
  dictionary of actions, or the same exception) on any two file systems that hold the same
  trees with the listings of their directories in another order, whatever else differs in
  the two processes; so do the groups of \<^verbatim>\<open>would_\<close>, from which the report is printed.
\<close>

theorem listing_order_irrelevant:
  assumes "same_tree (fs w) (fs w')"
  shows "fst (recurse_on_rel_path cur_root new_root
                (os_stat (fs w) (cur_root @ ''/'' @ ''.'')) (os_stat (fs w) (new_root @ ''/'' @ ''.''))
                ''.'' [] w)
       = fst (recurse_on_rel_path cur_root new_root
                (os_stat (fs w') (cur_root @ ''/'' @ ''.'')) (os_stat (fs w') (new_root @ ''/'' @ ''.''))
                ''.'' [] w')
       \<and> (case fst (recurse_on_rel_path cur_root new_root
                (os_stat (fs w) (cur_root @ ''/'' @ ''.'')) (os_stat (fs w) (new_root @ ''/'' @ ''.''))
                ''.'' [] w) of Inl e \<Rightarrow> Inl e | Inr acts \<Rightarrow> would_of acts)
         = (case fst (recurse_on_rel_path cur_root new_root
                (os_stat (fs w') (cur_root @ ''/'' @ ''.'')) (os_stat (fs w') (new_root @ ''/'' @ ''.''))
                ''.'' [] w') of Inl e \<Rightarrow> Inl e | Inr acts \<Rightarrow> would_of acts)"
proof -
  have "fst (recurse_on_rel_path cur_root new_root
                (os_stat (fs w) (cur_root @ ''/'' @ ''.'')) (os_stat (fs w) (new_root @ ''/'' @ ''.''))
                ''.'' [] w)
       = fst (recurse_on_rel_path cur_root new_root
                (os_stat (fs w') (cur_root @ ''/'' @ ''.'')) (os_stat (fs w') (new_root @ ''/'' @ ''.''))
                ''.'' [] w')"
    using assms by (intro order_irrelevant(1) same_tree_stat)
  then show ?thesis by simp
qed

theorem listing_order_irrelevant_witness:
  "fst (recurse_on_rel_path ''p'' ''p.new''
          (os_stat (fs (world_of trees_differ [])) (''p'' @ ''/'' @ ''.''))
          (os_stat (fs (world_of trees_differ [])) (''p.new'' @ ''/'' @ ''.''))
          ''.'' [] (world_of trees_differ []))
   = fst (recurse_on_rel_path ''p'' ''p.new''
            (os_stat (fs (world_of trees_reordered [''n''])) (''p'' @ ''/'' @ ''.''))
            (os_stat (fs (world_of trees_reordered [''n''])) (''p.new'' @ ''/'' @ ''.''))
            ''.'' [] (world_of trees_reordered [''n'']))"
proof -
  have "same_tree (fs (world_of trees_differ [])) (fs (world_of trees_reordered [''n'']))"
    by (auto simp: world_of_def trees_differ_def trees_reordered_def)
  from listing_order_irrelevant [OF this] show ?thesis by blast
qed

text \<open>
  C2, as the claim states it: after a mismatch of file and directory at any depth the
  remaining arguments are processed. It fails below the roots: \<^verbatim>\<open>assert 0\<close> ends the run,
  the program itself reports nothing, and the argument \<^verbatim>\<open>f\<close> that follows is never handled
  (handled alone, its candidate would have been removed).
\<close>

theorem deep_mismatch_aborts_counterexample:
  "fst (main [''prog'', ''p'', ''f''] (world_of deep_mismatch [])) = Inl AssertionError
   \<and> snd (main [''prog'', ''p'', ''f''] (world_of deep_mismatch [])) = world_of deep_mismatch []
   \<and> os_lstat (fs (snd (main [''prog'', ''f''] (world_of deep_mismatch [])))) ''f.new'' = None"
  by (simp add: arg_defs deep_mismatch_def os_defs io_defs dir_defs handle_dirs_def
        handle_files_def)


text \<open>
  C2, amended. When the two paths of an argument are a regular file and a directory, the
  program reports the mismatch on standard error, changes nothing and goes on with the
  remaining arguments. When both are well-formed directories and there is a mismatch
  below them, the run ends with \<^verbatim>\<open>AssertionError\<close>: the remaining arguments are not
  processed, and up to then nothing has happened but lines on standard error, so neither
  side has been taken for the right one.
\<close>

theorem type_mismatch_handling:
  assumes paths: "arg_paths common_dir_prefix arg = (cur_path, new_path)"
  shows "(os_lstat (fs w) cur_path = Some x \<and> os_lstat (fs w) new_path = Some y
          \<and> (is_regular x \<and> is_directory y \<or> is_directory x \<and> is_regular y)
          \<longrightarrow> for_args common_dir_prefix (arg # args) w
              = for_args common_dir_prefix args
                  (stderr (''ERROR: '' @ cur_path @ '' is a '' @ (if is_regular x then ''reg'' else ''dir'')
                           @ '', but '' @ new_path @ '' is a ''
                           @ (if is_regular y then ''reg'' else ''dir'')) w))
       \<and> (os_lstat (fs w) cur_path = Some (Dir ces) \<and> os_lstat (fs w) new_path = Some (Dir nes)
          \<and> wf_node (Dir ces) \<and> wf_node (Dir nes) \<and> mismatch ces nes
          \<longrightarrow> (\<exists>w'. for_args common_dir_prefix (arg # args) w = (Inl AssertionError, w')
                    \<and> extends_quietly w w'))"
proof (intro conjI impI)
  assume a: "os_lstat (fs w) cur_path = Some x \<and> os_lstat (fs w) new_path = Some y
          \<and> (is_regular x \<and> is_directory y \<or> is_directory x \<and> is_regular y)"
  then have ex: "os_path_exists (fs w) cur_path" "os_path_exists (fs w) new_path"
    by (auto intro: exists_plain)
  from a have ty: "get_type (fs w) cur_path = Inr (if is_regular x then ''reg'' else ''dir'')"
    "get_type (fs w) new_path = Inr (if is_regular y then ''reg'' else ''dir'')"
    by (auto simp: get_type_simps is_regular_def is_directory_def split: node.splits)
  from a have ne: "is_regular x \<noteq> is_regular y"
    by (auto simp: is_regular_def is_directory_def split: node.splits)
  have "handle_pair cur_path new_path w
      = (Inr (), stderr (''ERROR: '' @ cur_path @ '' is a '' @ (if is_regular x then ''reg'' else ''dir'')
                           @ '', but '' @ new_path @ '' is a ''
                           @ (if is_regular y then ''reg'' else ''dir'')) w)"
    using ex ty ne by (auto simp: handle_pair_def)
  with paths show "for_args common_dir_prefix (arg # args) w
              = for_args common_dir_prefix args
                  (stderr (''ERROR: '' @ cur_path @ '' is a '' @ (if is_regular x then ''reg'' else ''dir'')
                           @ '', but '' @ new_path @ '' is a ''
                           @ (if is_regular y then ''reg'' else ''dir'')) w)"
    by (simp add: handle_arg_def)
next
  assume a: "os_lstat (fs w) cur_path = Some (Dir ces) \<and> os_lstat (fs w) new_path = Some (Dir nes)
          \<and> wf_node (Dir ces) \<and> wf_node (Dir nes) \<and> mismatch ces nes"
  then have ex: "os_path_exists (fs w) cur_path" "os_path_exists (fs w) new_path"
    by (auto intro: exists_plain simp: is_directory_def)
  from a have ty: "get_type (fs w) cur_path = Inr ''dir''" "get_type (fs w) new_path = Inr ''dir''"
    by (auto simp: get_type_simps is_directory_def)
  from a have l: "os_lstat (fs w) cur_path = Some (Dir ces)"
    "os_lstat (fs w) new_path = Some (Dir nes)"
    by simp_all
  have st: "os_stat (fs w) (cur_path @ ''/'' @ ''.'') = Some (Dir ces)"
    "os_stat (fs w) (new_path @ ''/'' @ ''.'') = Some (Dir nes)"
    using stat_dot [OF l(1)] stat_dot [OF l(2)] by simp_all
  obtain r w' where run: "recurse_on_rel_path cur_path new_path (Some (Dir ces)) (Some (Dir nes))
       ''.'' [] w = (r, w')"
    by (cases "recurse_on_rel_path cur_path new_path (Some (Dir ces)) (Some (Dir nes)) ''.'' [] w")
  from traversal_mismatch(1) [of ces nes "Some (Dir ces)" "Some (Dir nes)" cur_path new_path "''.''" "[]" w]
    a run
  have r: "r = Inl AssertionError" by (cases r) (auto simp: outcome_def)
  have q: "extends_quietly w w'" using traversal_quiet_result [OF run] .
  have "handle_dirs cur_path new_path w = (Inl AssertionError, w')"
    using st run r by (simp add: handle_dirs_def)
  then have "handle_pair cur_path new_path w = (Inl AssertionError, w')"
    using ex ty by (simp add: handle_pair_def)
  with paths q show "\<exists>w'. for_args common_dir_prefix (arg # args) w = (Inl AssertionError, w')
                    \<and> extends_quietly w w'"
    by (simp add: handle_arg_def)
qed

theorem type_mismatch_handling_witness:
  "for_args None [''f'', ''g''] (world_of top_mismatch [])
     = for_args None [''g'']
         (stderr (''ERROR: '' @ ''f'' @ '' is a '' @ ''reg'' @ '', but '' @ ''f.new'' @ '' is a '' @ ''dir'')
            (world_of top_mismatch []))
   \<and> (\<exists>w'. for_args None [''p'', ''f''] (world_of deep_mismatch []) = (Inl AssertionError, w')
           \<and> extends_quietly (world_of deep_mismatch []) w')"
proof -
  have p1: "arg_paths None ''f'' = (''f'', ''f.new'')" and p2: "arg_paths None ''p'' = (''p'', ''p.new'')"
    by (simp_all add: arg_paths_def endswith_def)
  have h1: "os_lstat (fs (world_of top_mismatch [])) ''f'' = Some (Reg ''1'')
          \<and> os_lstat (fs (world_of top_mismatch [])) ''f.new'' = Some (Dir [])
          \<and> (is_regular (Reg ''1'') \<and> is_directory (Dir []) \<or> is_directory (Reg ''1'') \<and> is_regular (Dir []))"
    by (simp add: world_of_def top_mismatch_def os_defs)
  have h2: "os_lstat (fs (world_of deep_mismatch [])) ''p'' = Some (Dir [(''x'', Reg ''1'')])
          \<and> os_lstat (fs (world_of deep_mismatch [])) ''p.new'' = Some (Dir [(''x'', Dir [])])
          \<and> wf_node (Dir [(''x'', Reg ''1'')]) \<and> wf_node (Dir [(''x'', Dir [])])
          \<and> mismatch [(''x'', Reg ''1'')] [(''x'', Dir [])]"
    by (simp add: world_of_def deep_mismatch_def os_defs valid_name_def mismatch.simps dir_of_def
          fnmatchcase.simps)
  from type_mismatch_handling [OF p1, where w = "world_of top_mismatch []" and x = "Reg ''1''"
      and y = "Dir []" and args = "[''g'']"] h1
  have "for_args None [''f'', ''g''] (world_of top_mismatch [])
     = for_args None [''g'']
         (stderr (''ERROR: '' @ ''f'' @ '' is a '' @ ''reg'' @ '', but '' @ ''f.new'' @ '' is a '' @ ''dir'')
            (world_of top_mismatch []))"
    by (simp add: is_regular_def)
  moreover
  from type_mismatch_handling [OF p2, where w = "world_of deep_mismatch []"
      and ces = "[(''x'', Reg ''1'')]" and nes = "[(''x'', Dir [])]" and args = "[''f'']"] h2
  have "\<exists>w'. for_args None [''p'', ''f''] (world_of deep_mismatch []) = (Inl AssertionError, w')
           \<and> extends_quietly (world_of deep_mismatch []) w'"
    by blast
  ultimately show ?thesis by blast
qed


text \<open>
  C3. At the top level \<^verbatim>\<open>get_type\<close> classifies a symbolic link as \<^verbatim>\<open>other\<close>, whatever it
  leads to. Below, \<^verbatim>\<open>is_dir()\<close> is asked without \<^verbatim>\<open>follow_symlinks=False\<close>: a link to a
  directory on both sides is taken for a directory and the traversal descends through it,
  here to find that \<^verbatim>\<open>./s/f\<close> would be altered.
\<close>

theorem symlink_to_directory_followed:
  "get_type links_fs ''p/s'' = Inr ''other''
   \<and> fst (recurse_on_rel_path ''p'' ''p.new'' (os_stat links_fs (''p'' @ ''/'' @ ''.''))
            (os_stat links_fs (''p.new'' @ ''/'' @ ''.'')) ''.'' [] (world_of links_fs []))
     = Inr [(''./s/f'', ''alter'',
             [entry_of ''p/./s'' (''f'', Reg ''1''), entry_of ''p.new/./s'' (''f'', Reg ''2'')])]"
  by (simp add: links_fs_def os_defs io_defs dir_defs)


end
